theory Spec2Isabelle
  imports Main "HOL-Library.AList" "HOL-Library.Multiset"
begin

section \<open>Exceptions\<close>

text \<open>
  The exceptions the engine raises, as values. \<open>RuntimeError\<close> carries its message,
  \<open>ValueError\<close> the offending category attribute (\<open>raise ValueError(category.attr)\<close>);
  \<open>TypeError\<close> is raised by \<open>Fact.__init__\<close> on a child that is neither a question
  nor an answer node, \<open>IndexError\<close> by tuple indexing and by \<open>random.choice\<close> on an
  empty sequence.
\<close>

datatype error =
    RuntimeError string
  | ValueError "string option"
  | TypeError
  | IndexError

section \<open>Records of questions and answers (quizcore.Record)\<close>

text \<open>\<open>Record = namedtuple('Record', 'kind, question, choices, answer')\<close>.\<close>

record Record =
  kind :: string
  question :: string
  choices :: "string list"
  answer :: string

section \<open>Reports (teach\_me.Report)\<close>

text \<open>
  A Report object has six private fields. Reports refer to their parent by reference
  and \<open>finalize\<close> writes into the parent object, so reports live in a store: a
  reference is a natural number and the store maps every reference to the object it
  denotes.
\<close>

record Report =
  level :: string
  parent :: "nat option"
  right :: int
  wrong :: int
  problems :: "(Record \<times> string) list"
  finalized :: bool

type_synonym store = "nat \<Rightarrow> Report"

text \<open>\<open>Report.__init__(level, parent=None)\<close>; \<open>lvl\<close> is \<open>type(level).__name__\<close>.\<close>

definition Report_init :: "string \<Rightarrow> nat option \<Rightarrow> Report" where
  "Report_init lvl par =
     \<lparr>level = lvl, parent = par, right = 0, wrong = 0, problems = [], finalized = False\<rparr>"

text \<open>
  Every method returns the exception it raised, if any, together with the store as the
  call left it, so that a failed call that had already written something would show.
\<close>

definition right_answer :: "store \<Rightarrow> nat \<Rightarrow> error option \<times> store" where
  "right_answer h r =
     (if finalized (h r) then (Some (RuntimeError ''Report is finalized!''), h)
      else (None, h(r := (h r)\<lparr>right := right (h r) + 1\<rparr>)))"

definition wrong_answer :: "store \<Rightarrow> nat \<Rightarrow> error option \<times> store" where
  "wrong_answer h r =
     (if finalized (h r) then (Some (RuntimeError ''Report is finalized!''), h)
      else (None, h(r := (h r)\<lparr>wrong := wrong (h r) + 1\<rparr>)))"

definition review :: "store \<Rightarrow> nat \<Rightarrow> Record \<Rightarrow> string \<Rightarrow> error option \<times> store" where
  "review h r q a =
     (if finalized (h r) then (Some (RuntimeError ''Report is finalized!''), h)
      else (None, h(r := (h r)\<lparr>problems := problems (h r) @ [(q, a)]\<rparr>)))"

text \<open>
  \<open>finalize\<close> tests its own flag only, sets it, and then adds its counters and problems
  to the parent's private fields, one assignment after the other.
\<close>

definition finalize :: "store \<Rightarrow> nat \<Rightarrow> error option \<times> store" where
  "finalize h r =
     (if finalized (h r) then (Some (RuntimeError ''Report is finalized!''), h)
      else
        let h1 = h(r := (h r)\<lparr>finalized := True\<rparr>) in
        (case parent (h r) of
           None \<Rightarrow> (None, h1)
         | Some p \<Rightarrow>
             let h2 = h1(p := (h1 p)\<lparr>right := right (h1 p) + right (h1 r)\<rparr>);
                 h3 = h2(p := (h2 p)\<lparr>wrong := wrong (h2 p) + wrong (h2 r)\<rparr>);
                 h4 = h3(p := (h3 p)\<lparr>problems := problems (h3 p) @ problems (h3 r)\<rparr>)
             in (None, h4)))"

text \<open>The read-only properties. They assign nothing, so they are functions of the store.\<close>

definition Report_right :: "store \<Rightarrow> nat \<Rightarrow> error + int" where
  "Report_right h r =
     (if \<not> finalized (h r) then Inl (RuntimeError ''Report is not finalized!'')
      else Inr (right (h r)))"

definition Report_wrong :: "store \<Rightarrow> nat \<Rightarrow> error + int" where
  "Report_wrong h r =
     (if \<not> finalized (h r) then Inl (RuntimeError ''Report is not finalized!'')
      else Inr (wrong (h r)))"

definition Report_total :: "store \<Rightarrow> nat \<Rightarrow> error + int" where
  "Report_total h r =
     (if \<not> finalized (h r) then Inl (RuntimeError ''Report is not finalized!'')
      else Inr (right (h r) + wrong (h r)))"

definition Report_final :: "store \<Rightarrow> nat \<Rightarrow> bool" where
  "Report_final h r = (parent (h r) = None)"

section \<open>Question events (teach\_me.Question)\<close>

record Question =
  q_report :: nat
  q_category :: string
  q_question :: string
  q_choices :: "string list"
  q_right :: string
  q_answered :: bool
  q_q_and_a :: Record

text \<open>\<open>Question(section_report, *record)\<close>.\<close>

definition Question_init :: "nat \<Rightarrow> Record \<Rightarrow> Question" where
  "Question_init rep rcd =
     \<lparr>q_report = rep, q_category = kind rcd, q_question = question rcd,
      q_choices = choices rcd, q_right = answer rcd, q_answered = False,
      q_q_and_a = \<lparr>kind = kind rcd, question = question rcd,
                   choices = choices rcd, answer = answer rcd\<rparr>\<rparr>"

text \<open>
  Indexing a tuple with a Python int: a negative index counts from the end, and an index
  outside \<open>-len .. len - 1\<close> raises IndexError.
\<close>

definition tuple_getitem :: "'a list \<Rightarrow> int \<Rightarrow> error + 'a" where
  "tuple_getitem xs i =
     (if 0 \<le> i \<and> i < int (length xs) then Inr (xs ! nat i)
      else if i < 0 \<and> - int (length xs) \<le> i then Inr (xs ! nat (int (length xs) + i))
      else Inl IndexError)"

text \<open>The argument of \<open>answer\<close> is an int or a str.\<close>

datatype index_or_string = An_int int | A_str string

definition Question_answer ::
  "store \<Rightarrow> Question \<Rightarrow> index_or_string \<Rightarrow> error option \<times> store \<times> Question" where
  "Question_answer h q x =
     (if q_answered q
      then (Some (RuntimeError ''Question has already been answered!''), h, q)
      else
        (case (case x of An_int i \<Rightarrow> tuple_getitem (q_choices q) i | A_str s \<Rightarrow> Inr s) of
           Inl e \<Rightarrow> (Some e, h, q)
         | Inr s \<Rightarrow>
             if s = q_right q then
               (case right_answer h (q_report q) of
                  (Some e, h1) \<Rightarrow> (Some e, h1, q)
                | (None, h1) \<Rightarrow> (None, h1, q\<lparr>q_answered := True\<rparr>))
             else
               (case wrong_answer h (q_report q) of
                  (Some e, h1) \<Rightarrow> (Some e, h1, q)
                | (None, h1) \<Rightarrow>
                    (case review h1 (q_report q) (q_q_and_a q) s of
                       (Some e, h2) \<Rightarrow> (Some e, h2, q)
                     | (None, h2) \<Rightarrow> (None, h2, q\<lparr>q_answered := True\<rparr>)))))"

section \<open>The document tree (testbank)\<close>

text \<open>
  The parser hands over a tree of \<open>_Node\<close> objects: each has a class, an attribute
  (\<open>None\<close> for questions, answers and most facts), its text and its children.
  \<open>quizcore\<close> reads \<open>attr\<close>, \<open>text\<close> and \<open>children\<close> and tests the class of a
  fact's children only.
\<close>

datatype testbank_class =
    testbank_TestBank
  | testbank_Chapter
  | testbank_Section
  | testbank_Category
  | testbank_Fact
  | testbank_Question
  | testbank_Answer

datatype node =
  Node (node_class: testbank_class) (attr: "string option") (node_text: string)
       (children: "node list")

section \<open>The structural model (quizcore)\<close>

text \<open>
  \<open>list(map(C, xs))\<close> with a constructor \<open>C\<close> that may raise: the first exception
  ends the construction.
\<close>

fun map_raise :: "('a \<Rightarrow> error + 'b) \<Rightarrow> 'a list \<Rightarrow> error + 'b list" where
  "map_raise f [] = Inr []"
| "map_raise f (x # xs) =
     (case f x of
        Inl e \<Rightarrow> Inl e
      | Inr y \<Rightarrow> (case map_raise f xs of Inl e \<Rightarrow> Inl e | Inr ys \<Rightarrow> Inr (y # ys)))"

text \<open>
  \<open>quizcore.Question\<close> and \<open>quizcore.Answer\<close> objects hold one field, \<open>text\<close>, and
  are modelled by it. \<open>Answer.__init__\<close> validates the text of a true/false answer.
\<close>

definition Answer_init :: "node \<Rightarrow> bool \<Rightarrow> error + string" where
  "Answer_init ans true_or_false =
     (if true_or_false \<and> node_text ans \<notin> {''True'', ''False''}
      then Inl (RuntimeError ''Answer is invalid!'')
      else Inr (node_text ans))"

text \<open>
  A dict is an association list with distinct keys in insertion order (assignment to a
  key is \<open>AList.update\<close>: in place when the key is there, at the end otherwise). A set
  or frozenset is a list without repetitions; the order in which Python iterates over a
  set is not specified, the model takes the order of the list.
\<close>

record Fact =
  fkind :: "string option"
  questions :: "string list"
  answers :: "string list"
  q_to_a :: "(string \<times> string list) list"
  a_to_q :: "(string \<times> string list) list"

text \<open>The loop over \<open>fact.children\<close> of \<open>Fact.__init__\<close>.\<close>

fun Fact_children ::
  "bool \<Rightarrow> node list \<Rightarrow> string list \<Rightarrow> string list \<Rightarrow> error + (string list \<times> string list)"
where
  "Fact_children tf [] qs ans = Inr (qs, ans)"
| "Fact_children tf (child # rest) qs ans =
     (if node_class child = testbank_Question
      then Fact_children tf rest (qs @ [node_text child]) ans
      else if node_class child = testbank_Answer
      then (case Answer_init child tf of
              Inl e \<Rightarrow> Inl e
            | Inr a \<Rightarrow> Fact_children tf rest qs (ans @ [a]))
      else Inl TypeError)"

definition Fact_init :: "node \<Rightarrow> bool \<Rightarrow> error + Fact" where
  "Fact_init fact_node true_or_false =
     (case Fact_children true_or_false (children fact_node) [] [] of
        Inl e \<Rightarrow> Inl e
      | Inr (qs, ans) \<Rightarrow>
          if ans = [] then Inl (RuntimeError ''Fact is empty!'')
          else Inr \<lparr>fkind = attr fact_node, questions = qs, answers = ans,
                    q_to_a = [], a_to_q = []\<rparr>)"

text \<open>\<open>d.update((k, v) for k in ks)\<close>.\<close>

definition dict_update_const :: "('k \<times> 'v) list \<Rightarrow> 'k list \<Rightarrow> 'v \<Rightarrow> ('k \<times> 'v) list" where
  "dict_update_const d ks v = foldl (\<lambda>d k. AList.update k v d) d ks"

definition Fact_build :: "Fact \<Rightarrow> Fact" where
  "Fact_build f =
     (let qs = remdups (questions f);
          ans = remdups (answers f)
      in f\<lparr>q_to_a := dict_update_const (q_to_a f) qs ans,
           a_to_q := dict_update_const (a_to_q f) ans qs\<rparr>)"

text \<open>
  The three category classes. \<open>TrueOrFalse\<close> inherits \<open>CHOICES = 0\<close> and
  \<open>NAME = ''\<close> from \<open>_Category\<close>.
\<close>

datatype category_class = Matching | MultipleChoice | TrueOrFalse

fun CHOICES :: "category_class \<Rightarrow> nat" where
  "CHOICES Matching = 25"
| "CHOICES MultipleChoice = 3"
| "CHOICES TrueOrFalse = 0"

fun NAME :: "category_class \<Rightarrow> string" where
  "NAME Matching = ''Matching''"
| "NAME MultipleChoice = ''Multiple Choice''"
| "NAME TrueOrFalse = ''''"

record Category =
  cls :: category_class
  facts :: "Fact list"
  q_and_a :: "Record list"

text \<open>\<open>_Category.__init__\<close>, reached through the constructor of class \<open>c\<close>.\<close>

definition Category_init :: "category_class \<Rightarrow> node \<Rightarrow> error + Category" where
  "Category_init c category =
     (case map_raise (\<lambda>child. Fact_init child (c = TrueOrFalse)) (children category) of
        Inl e \<Rightarrow> Inl e
      | Inr fs \<Rightarrow>
          if fs = [] then Inl (RuntimeError ''Category is empty!'')
          else Inr \<lparr>cls = c, facts = fs, q_and_a = []\<rparr>)"

text \<open>The table \<open>_CATEGORY\<close>; a missing key is the \<open>KeyError\<close> of \<open>get_category\<close>.\<close>

definition CATEGORY :: "string option \<Rightarrow> category_class option" where
  "CATEGORY a =
     (if a = Some ''matching'' then Some Matching
      else if a = Some ''multiple_choice'' then Some MultipleChoice
      else if a = Some ''true_or_false'' then Some TrueOrFalse
      else None)"

definition get_category :: "node \<Rightarrow> error + Category" where
  "get_category category =
     (case CATEGORY (attr category) of
        None \<Rightarrow> Inl (ValueError (attr category))
      | Some c \<Rightarrow> Category_init c category)"

record Section =
  section_name :: "string option"
  categories :: "Category list"

definition Section_init :: "node \<Rightarrow> error + Section" where
  "Section_init sec =
     (case map_raise get_category (children sec) of
        Inl e \<Rightarrow> Inl e
      | Inr cs \<Rightarrow>
          if cs = [] then Inl (RuntimeError ''Section is empty!'')
          else Inr \<lparr>section_name = attr sec, categories = cs\<rparr>)"

record Chapter =
  chapter_name :: "string option"
  sections :: "Section list"

definition Chapter_init :: "node \<Rightarrow> error + Chapter" where
  "Chapter_init chapter =
     (case map_raise Section_init (children chapter) of
        Inl e \<Rightarrow> Inl e
      | Inr ss \<Rightarrow>
          if ss = [] then Inl (RuntimeError ''Chapter is empty!'')
          else Inr \<lparr>chapter_name = attr chapter, sections = ss\<rparr>)"

record UnitTest =
  unittest_name :: "string option"
  chapters :: "Chapter list"

definition UnitTest_init :: "node \<Rightarrow> error + UnitTest" where
  "UnitTest_init root_node =
     (case map_raise Chapter_init (children root_node) of
        Inl e \<Rightarrow> Inl e
      | Inr cs \<Rightarrow>
          if cs = [] then Inl (RuntimeError ''UnitTest is empty!'')
          else Inr \<lparr>unittest_name = attr root_node, chapters = cs\<rparr>)"

section \<open>Randomness (the random module)\<close>

text \<open>
  Python's \<open>random\<close> module is a library outside the repository. Its state is modelled
  as the list of raw numbers it will deliver; a call takes what it needs from the front
  and a spent generator delivers zeros. The theorems about the builders and the session
  hold for every such list, and every result the library can deliver is delivered for
  some list (\<open>draw_complete\<close>, \<open>random_shuffle_complete\<close>,
  \<open>random_choice_complete\<close> below). \<open>random.sample\<close> is the one of the
  interpreters the code was written for (it uses f-strings, so Python 3.6 or later, and
  is dated 2017), which accepts a set as population; from Python 3.11 on the call in
  \<open>_MCM.build\<close> is rejected with a TypeError.
\<close>

type_synonym rng = "nat list"

fun randbelow :: "nat \<Rightarrow> rng \<Rightarrow> nat \<times> rng" where
  "randbelow n [] = (0, [])"
| "randbelow n (r # g) = (r mod n, g)"

text \<open>Picking \<open>k\<close> positions of a sequence one after the other, without replacement.\<close>

fun draw :: "'a list \<Rightarrow> nat \<Rightarrow> rng \<Rightarrow> 'a list \<times> rng" where
  "draw pop 0 g = ([], g)"
| "draw pop (Suc k) g =
     (case randbelow (length pop) g of
        (i, g1) \<Rightarrow>
          (case draw (take i pop @ drop (Suc i) pop) k g1 of
             (rest, g2) \<Rightarrow> (pop ! i # rest, g2)))"

text \<open>\<open>random.sample(population, k)\<close>; a set is turned into a tuple first.\<close>

definition random_sample :: "'a list \<Rightarrow> nat \<Rightarrow> rng \<Rightarrow> error + ('a list \<times> rng)" where
  "random_sample pop k g =
     (if length pop < k then Inl (ValueError (Some ''Sample larger than population''))
      else Inr (draw pop k g))"

text \<open>\<open>random.choice(seq)\<close>.\<close>

definition random_choice :: "'a list \<Rightarrow> rng \<Rightarrow> error + ('a \<times> rng)" where
  "random_choice seq g =
     (if seq = [] then Inl IndexError
      else (case randbelow (length seq) g of (i, g1) \<Rightarrow> Inr (seq ! i, g1)))"

text \<open>\<open>random.shuffle(x)\<close>: the list is replaced by a permutation of itself.\<close>

definition random_shuffle :: "'a list \<Rightarrow> rng \<Rightarrow> 'a list \<times> rng" where
  "random_shuffle x g = draw x (length x) g"

section \<open>Category builders (quizcore)\<close>

text \<open>\<open>d.setdefault(k, set()).update(vs)\<close> on a dict of sets.\<close>

definition setdefault_update ::
  "('k \<times> 'v list) list \<Rightarrow> 'k \<Rightarrow> 'v list \<Rightarrow> ('k \<times> 'v list) list" where
  "setdefault_update d k vs =
     AList.update k (List.union vs (case map_of d k of None \<Rightarrow> [] | Some s \<Rightarrow> s)) d"

text \<open>
  The dict \<open>kinds\<close> of \<open>_MCM.build\<close>: a fact kind is mapped to
  \<open>{'question': {...}, 'answer': {...}}\<close>, here the pair of the two dicts.
\<close>

type_synonym kind_group = "(string \<times> string list) list \<times> (string \<times> string list) list"

type_synonym kinds = "(string option \<times> kind_group) list"

text \<open>\<open>kinds.setdefault(fact.kind, {'question': {}, 'answer': {}})\<close>.\<close>

definition kinds_setdefault :: "kinds \<Rightarrow> string option \<Rightarrow> kind_group \<times> kinds" where
  "kinds_setdefault ks k =
     (case map_of ks k of
        None \<Rightarrow> (([], []), ks @ [(k, ([], []))])
      | Some grp \<Rightarrow> (grp, ks))"

text \<open>
  The two inner loops of the first loop of \<open>_MCM.build\<close>, over the items of
  \<open>fact.q_to_a\<close> and of \<open>fact.a_to_q\<close>.
\<close>

definition kinds_add_question :: "string option \<Rightarrow> kinds \<Rightarrow> string \<times> string list \<Rightarrow> kinds" where
  "kinds_add_question k ks qa =
     (case kinds_setdefault ks k of
        ((qd, ad), ks1) \<Rightarrow> AList.update k (setdefault_update qd (fst qa) (snd qa), ad) ks1)"

definition kinds_add_answer :: "string option \<Rightarrow> kinds \<Rightarrow> string \<times> string list \<Rightarrow> kinds" where
  "kinds_add_answer k ks aq =
     (case kinds_setdefault ks k of
        ((qd, ad), ks1) \<Rightarrow> AList.update k (qd, setdefault_update ad (fst aq) (snd aq)) ks1)"

definition MCM_collect :: "kinds \<Rightarrow> Fact \<Rightarrow> kinds" where
  "MCM_collect ks f =
     foldl (kinds_add_answer (fkind f))
       (foldl (kinds_add_question (fkind f)) ks (q_to_a f)) (a_to_q f)"

text \<open>
  The loop \<open>for question in questions\<close> of one kind group: \<open>all_answers\<close> are the keys of
  the group's answer dict, and the loop runs over the question dict, whose items are a
  question and the set of its correct answers. An exception leaves the records
  appended so far in \<open>q_and_a\<close>.
\<close>

fun MCM_questions ::
  "category_class \<Rightarrow> string list \<Rightarrow> (string \<times> string list) list \<Rightarrow> Record list \<Rightarrow> rng
     \<Rightarrow> error option \<times> Record list \<times> rng" where
  "MCM_questions c all_answers [] out g = (None, out, g)"
| "MCM_questions c all_answers ((q, correct) # rest) out g =
     (let wrong = filter (\<lambda>a. a \<notin> set correct) all_answers in
      case random_sample wrong (min (length wrong) (CHOICES c)) g of
        Inl e \<Rightarrow> (Some e, out, g)
      | Inr (sample, g1) \<Rightarrow>
          (case random_choice correct g1 of
             Inl e \<Rightarrow> (Some e, out, g1)
           | Inr (rgt, g2) \<Rightarrow>
               (case random_shuffle (sample @ [rgt]) g2 of
                  (shuffled, g3) \<Rightarrow>
                    MCM_questions c all_answers rest
                      (out @ [\<lparr>kind = NAME c, question = q, choices = shuffled,
                               answer = rgt\<rparr>]) g3)))"

text \<open>The loop \<open>for kind in kinds\<close>.\<close>

fun MCM_kinds ::
  "category_class \<Rightarrow> kinds \<Rightarrow> Record list \<Rightarrow> rng \<Rightarrow> error option \<times> Record list \<times> rng" where
  "MCM_kinds c [] out g = (None, out, g)"
| "MCM_kinds c ((k, (qd, ad)) # rest) out g =
     (case MCM_questions c (map fst ad) qd out g of
        (Some e, out1, g1) \<Rightarrow> (Some e, out1, g1)
      | (None, out1, g1) \<Rightarrow> MCM_kinds c rest out1 g1)"

definition MCM_build :: "Category \<Rightarrow> rng \<Rightarrow> error option \<times> Category \<times> rng" where
  "MCM_build self g =
     (let fs = map Fact_build (facts self);
          ks = foldl MCM_collect [] fs
      in case MCM_kinds (cls self) ks (q_and_a self) g of
           (e, out, g1) \<Rightarrow> (e, self\<lparr>facts := fs, q_and_a := out\<rparr>, g1))"

text \<open>\<open>TrueOrFalse.build\<close>: the dict \<open>questions\<close>, then the loop over it.\<close>

definition TrueOrFalse_collect ::
  "(string \<times> string list) list \<Rightarrow> Fact \<Rightarrow> (string \<times> string list) list" where
  "TrueOrFalse_collect d f = foldl (\<lambda>d qa. setdefault_update d (fst qa) (snd qa)) d (q_to_a f)"

fun TrueOrFalse_questions ::
  "(string \<times> string list) list \<Rightarrow> Record list \<Rightarrow> rng \<Rightarrow> error option \<times> Record list \<times> rng"
where
  "TrueOrFalse_questions [] out g = (None, out, g)"
| "TrueOrFalse_questions ((q, ans) # rest) out g =
     (case ans of
        [rgt] \<Rightarrow>
          (case random_sample [''True'', ''False''] 2 g of
             Inl e \<Rightarrow> (Some e, out, g)
           | Inr (sample, g1) \<Rightarrow>
               TrueOrFalse_questions rest
                 (out @ [\<lparr>kind = ''True or False'', question = q, choices = sample,
                          answer = rgt\<rparr>]) g1)
      | _ \<Rightarrow> (Some (RuntimeError ''Question is invalid!''), out, g))"

definition TrueOrFalse_build :: "Category \<Rightarrow> rng \<Rightarrow> error option \<times> Category \<times> rng" where
  "TrueOrFalse_build self g =
     (let fs = map Fact_build (facts self);
          qs = foldl TrueOrFalse_collect [] fs
      in case TrueOrFalse_questions qs (q_and_a self) g of
           (e, out, g1) \<Rightarrow> (e, self\<lparr>facts := fs, q_and_a := out\<rparr>, g1))"

text \<open>\<open>category.build()\<close>, dispatched on the class of the category.\<close>

definition build :: "Category \<Rightarrow> rng \<Rightarrow> error option \<times> Category \<times> rng" where
  "build self g =
     (case cls self of
        TrueOrFalse \<Rightarrow> TrueOrFalse_build self g
      | _ \<Rightarrow> MCM_build self g)"

section \<open>The session engine (teach\_me.FAQ)\<close>

text \<open>\<open>FAQ.__init__\<close> builds the whole structural model before any event exists.\<close>

record FAQ =
  test :: UnitTest

definition FAQ_init :: "node \<Rightarrow> error + FAQ" where
  "FAQ_init testbank =
     (case UnitTest_init testbank of Inl e \<Rightarrow> Inl e | Inr u \<Rightarrow> Inr \<lparr>test = u\<rparr>)"

text \<open>
  The events the generator yields: \<open>Enter\<close> and \<open>Exit\<close> carry the class name of the
  division and its name, a question event is the \<open>Question\<close> object as it is yielded
  (not yet answered), a report event is the reference of the finalized Report.
\<close>

datatype event =
    Enter string "string option"
  | Exit string "string option"
  | Question_event Question
  | Report_event nat

fun is_Question_event :: "event \<Rightarrow> bool" where
  "is_Question_event (Question_event q) = True"
| "is_Question_event _ = False"

text \<open>
  The state of a running session: the store of Reports with the next unused reference,
  the random source, the events yielded so far, and how many questions the driver has
  answered.
\<close>

record session =
  reports :: store
  allocated :: nat
  rand :: rng
  events :: "event list"
  asked :: nat

definition new_session :: "rng \<Rightarrow> session" where
  "new_session g =
     \<lparr>reports = (\<lambda>_. Report_init [] None), allocated = 0, rand = g, events = [], asked = 0\<rparr>"

text \<open>\<open>Report(level, parent)\<close>: a new object in the store.\<close>

definition new_Report :: "string \<Rightarrow> nat option \<Rightarrow> session \<Rightarrow> nat \<times> session" where
  "new_Report lvl par s =
     (allocated s,
      s\<lparr>reports := (reports s)(allocated s := Report_init lvl par),
        allocated := Suc (allocated s)\<rparr>)"

definition yield :: "event \<Rightarrow> session \<Rightarrow> session" where
  "yield ev s = s\<lparr>events := events s @ [ev]\<rparr>"

text \<open>
  The external driver pulls the events. As the consumption contract asks, it calls
  \<open>answer\<close> once on every question event before it pulls the next event; what it
  answers to the \<open>n\<close>-th question of the session is \<open>drv n q\<close>. An exception of
  \<open>answer\<close> ends the session.
\<close>

type_synonym driver = "nat \<Rightarrow> Question \<Rightarrow> index_or_string"

text \<open>\<open>for question in q_and_a: yield Question(section_report, *question)\<close>.\<close>

fun yield_questions :: "driver \<Rightarrow> nat \<Rightarrow> Record list \<Rightarrow> session \<Rightarrow> error + session" where
  "yield_questions drv section_report [] s = Inr s"
| "yield_questions drv section_report (rcd # rest) s =
     (let q = Question_init section_report rcd;
          s1 = yield (Question_event q) s
      in case Question_answer (reports s1) q (drv (asked s1) q) of
           (Some e, h, q1) \<Rightarrow> Inl e
         | (None, h, q1) \<Rightarrow>
             yield_questions drv section_report rest
               (s1\<lparr>reports := h, asked := Suc (asked s1)\<rparr>))"

text \<open>
  \<open>for category in section.categories: category.build(); q_and_a.extend(category.q_and_a)\<close>.
\<close>

fun build_categories ::
  "Category list \<Rightarrow> Record list \<Rightarrow> rng \<Rightarrow> error + (Category list \<times> Record list \<times> rng)" where
  "build_categories [] pool g = Inr ([], pool, g)"
| "build_categories (c # cs) pool g =
     (case build c g of
        (Some e, c1, g1) \<Rightarrow> Inl e
      | (None, c1, g1) \<Rightarrow>
          (case build_categories cs (pool @ q_and_a c1) g1 of
             Inl e \<Rightarrow> Inl e
           | Inr (cs1, pool1, g2) \<Rightarrow> Inr (c1 # cs1, pool1, g2)))"

text \<open>The body of \<open>for section in chapter.sections\<close>.\<close>

definition run_section :: "driver \<Rightarrow> nat \<Rightarrow> Section \<Rightarrow> session \<Rightarrow> error + (Section \<times> session)" where
  "run_section drv chapter_report sec s =
     (let s1 = yield (Enter ''Section'' (section_name sec)) s in
      case new_Report ''Section'' (Some chapter_report) s1 of
        (section_report, s2) \<Rightarrow>
          (case build_categories (categories sec) [] (rand s2) of
             Inl e \<Rightarrow> Inl e
           | Inr (cats, pool, g1) \<Rightarrow>
               (case random_shuffle pool g1 of
                  (shuffled, g2) \<Rightarrow>
                    (case yield_questions drv section_report shuffled (s2\<lparr>rand := g2\<rparr>) of
                       Inl e \<Rightarrow> Inl e
                     | Inr s3 \<Rightarrow>
                         (let s4 = yield (Exit ''Section'' (section_name sec)) s3 in
                          case finalize (reports s4) section_report of
                            (Some e, h) \<Rightarrow> Inl e
                          | (None, h) \<Rightarrow>
                              Inr (sec\<lparr>categories := cats\<rparr>,
                                   yield (Report_event section_report)
                                     (s4\<lparr>reports := h\<rparr>)))))))"

fun run_sections ::
  "driver \<Rightarrow> nat \<Rightarrow> Section list \<Rightarrow> session \<Rightarrow> error + (Section list \<times> session)" where
  "run_sections drv chapter_report [] s = Inr ([], s)"
| "run_sections drv chapter_report (sec # rest) s =
     (case run_section drv chapter_report sec s of
        Inl e \<Rightarrow> Inl e
      | Inr (sec1, s1) \<Rightarrow>
          (case run_sections drv chapter_report rest s1 of
             Inl e \<Rightarrow> Inl e
           | Inr (rest1, s2) \<Rightarrow> Inr (sec1 # rest1, s2)))"

text \<open>The body of \<open>for chapter in unittest.chapters\<close>.\<close>

definition run_chapter :: "driver \<Rightarrow> nat \<Rightarrow> Chapter \<Rightarrow> session \<Rightarrow> error + (Chapter \<times> session)" where
  "run_chapter drv unittest_report chapter s =
     (let s1 = yield (Enter ''Chapter'' (chapter_name chapter)) s in
      case new_Report ''Chapter'' (Some unittest_report) s1 of
        (chapter_report, s2) \<Rightarrow>
          (case run_sections drv chapter_report (sections chapter) s2 of
             Inl e \<Rightarrow> Inl e
           | Inr (secs, s3) \<Rightarrow>
               (let s4 = yield (Exit ''Chapter'' (chapter_name chapter)) s3 in
                case finalize (reports s4) chapter_report of
                  (Some e, h) \<Rightarrow> Inl e
                | (None, h) \<Rightarrow>
                    Inr (chapter\<lparr>sections := secs\<rparr>,
                         yield (Report_event chapter_report) (s4\<lparr>reports := h\<rparr>)))))"

fun run_chapters ::
  "driver \<Rightarrow> nat \<Rightarrow> Chapter list \<Rightarrow> session \<Rightarrow> error + (Chapter list \<times> session)" where
  "run_chapters drv unittest_report [] s = Inr ([], s)"
| "run_chapters drv unittest_report (chapter # rest) s =
     (case run_chapter drv unittest_report chapter s of
        Inl e \<Rightarrow> Inl e
      | Inr (chapter1, s1) \<Rightarrow>
          (case run_chapters drv unittest_report rest s1 of
             Inl e \<Rightarrow> Inl e
           | Inr (rest1, s2) \<Rightarrow> Inr (chapter1 # rest1, s2)))"

text \<open>
  \<open>FAQ.__iter__\<close>, run to its end by the driver: the result is the test with its
  categories as the builds left them, and the final state of the session.
\<close>

definition FAQ_iter :: "driver \<Rightarrow> FAQ \<Rightarrow> session \<Rightarrow> error + (FAQ \<times> session)" where
  "FAQ_iter drv self s =
     (let unittest = test self;
          s1 = yield (Enter ''UnitTest'' (unittest_name unittest)) s
      in case new_Report ''UnitTest'' None s1 of
           (unittest_report, s2) \<Rightarrow>
             (case run_chapters drv unittest_report (chapters unittest) s2 of
                Inl e \<Rightarrow> Inl e
              | Inr (chaps, s3) \<Rightarrow>
                  (let s4 = yield (Exit ''UnitTest'' (unittest_name unittest)) s3 in
                   case finalize (reports s4) unittest_report of
                     (Some e, h) \<Rightarrow> Inl e
                   | (None, h) \<Rightarrow>
                       Inr (self\<lparr>test := unittest\<lparr>chapters := chaps\<rparr>\<rparr>,
                            yield (Report_event unittest_report) (s4\<lparr>reports := h\<rparr>)))))"

section \<open>Auxiliary predicates\<close>

text \<open>
  The exceptions of structural validation: \<open>RuntimeError\<close> for an empty level, an
  invalid true/false answer or an ambiguous true/false question, and \<open>ValueError\<close>
  for an unknown category type.
\<close>

definition structural :: "error \<Rightarrow> bool" where
  "structural e = (case e of RuntimeError m \<Rightarrow> True | ValueError a \<Rightarrow> True | _ \<Rightarrow> False)"

text \<open>
  What makes a document tree invalid, level by level (used in the proofs only): a fact
  without an answer node, or a true/false fact with an answer other than \<open>True\<close> or
  \<open>False\<close>; a category of unknown type, without facts or with such a fact; a section,
  chapter or test bank that is empty or holds such a part.
\<close>

definition fact_defect :: "bool \<Rightarrow> node \<Rightarrow> bool" where
  "fact_defect tf fa \<longleftrightarrow>
     [c \<leftarrow> children fa. node_class c = testbank_Answer] = []
   \<or> (tf \<and> (\<exists>a \<in> set (children fa). node_class a = testbank_Answer
              \<and> node_text a \<notin> {''True'', ''False''}))"

definition category_defect :: "node \<Rightarrow> bool" where
  "category_defect ca \<longleftrightarrow>
     attr ca \<notin> {Some ''matching'', Some ''multiple_choice'', Some ''true_or_false''}
   \<or> children ca = []
   \<or> (\<exists>fa \<in> set (children ca). fact_defect (attr ca = Some ''true_or_false'') fa)"

definition section_defect :: "node \<Rightarrow> bool" where
  "section_defect se \<longleftrightarrow> children se = [] \<or> (\<exists>ca \<in> set (children se). category_defect ca)"

definition chapter_defect :: "node \<Rightarrow> bool" where
  "chapter_defect ch \<longleftrightarrow> children ch = [] \<or> (\<exists>se \<in> set (children ch). section_defect se)"

definition testbank_defect :: "node \<Rightarrow> bool" where
  "testbank_defect root \<longleftrightarrow>
     children root = [] \<or> (\<exists>ch \<in> set (children root). chapter_defect ch)"

text \<open>
  What \<open>Fact.build\<close> leaves in the two dicts of a fact, and a fact as the constructor
  or an earlier \<open>build\<close> left it.
\<close>

definition built_q_to_a :: "Fact \<Rightarrow> (string \<times> string list) list" where
  "built_q_to_a f = map (\<lambda>q. (q, remdups (answers f))) (remdups (questions f))"

definition built_a_to_q :: "Fact \<Rightarrow> (string \<times> string list) list" where
  "built_a_to_q f = map (\<lambda>a. (a, remdups (questions f))) (remdups (answers f))"

definition fresh_or_built :: "Fact \<Rightarrow> bool" where
  "fresh_or_built f \<longleftrightarrow>
     (q_to_a f = [] \<or> q_to_a f = built_q_to_a f) \<and> (a_to_q f = [] \<or> a_to_q f = built_a_to_q f)"

text \<open>
  A dict of sets read as a function from keys to sets (a missing key is the empty set),
  and its well-formedness: distinct keys, and every value a list without repetitions.
\<close>

definition dset :: "('k \<times> 'v list) list \<Rightarrow> 'k \<Rightarrow> 'v set" where
  "dset d k = (case map_of d k of None \<Rightarrow> {} | Some s \<Rightarrow> set s)"

definition dict_ok :: "('k \<times> 'v list) list \<Rightarrow> bool" where
  "dict_ok d \<longleftrightarrow> distinct (map fst d) \<and> (\<forall>p \<in> set d. distinct (snd p))"

text \<open>
  In the words of claim C5, computed from the facts alone: the answer values recorded
  for a question over all facts of a category (the fact kind plays no part in a
  true/false category). Then what a Record of \<open>TrueOrFalse.build\<close> is, given the
  dict \<open>questions\<close>.
\<close>

definition recorded_answers :: "Fact list \<Rightarrow> string \<Rightarrow> string set" where
  "recorded_answers fs q = set (concat (map answers (filter (\<lambda>f. q \<in> set (questions f)) fs)))"

definition tf_record :: "(string \<times> string list) list \<Rightarrow> Record \<Rightarrow> bool" where
  "tf_record d r \<longleftrightarrow>
     (question r, [answer r]) \<in> set d
   \<and> (choices r = [''True'', ''False''] \<or> choices r = [''False'', ''True''])
   \<and> kind r = ''True or False''"

text \<open>
  The group stored in \<open>kinds\<close> under a fact kind (empty dicts when there is none)
  and the well-formedness of \<open>kinds\<close>. Then the sets claim C1 speaks of, in the
  claim's words and computed from the facts alone, not from \<open>kinds\<close>: the distinct
  answers of the facts of a kind, the answers that are correct for a question within a
  kind, and the questions of a kind.
\<close>

definition group_of :: "kinds \<Rightarrow> string option \<Rightarrow> kind_group" where
  "group_of ks k = (case map_of ks k of None \<Rightarrow> ([], []) | Some grp \<Rightarrow> grp)"

definition kinds_ok :: "kinds \<Rightarrow> bool" where
  "kinds_ok ks \<longleftrightarrow>
     distinct (map fst ks) \<and> (\<forall>p \<in> set ks. dict_ok (fst (snd p)) \<and> dict_ok (snd (snd p)))"

definition kind_answers :: "Fact list \<Rightarrow> string option \<Rightarrow> string set" where
  "kind_answers fs k = set (concat (map answers (filter (\<lambda>f. fkind f = k) fs)))"

definition correct_answers :: "Fact list \<Rightarrow> string option \<Rightarrow> string \<Rightarrow> string set" where
  "correct_answers fs k q =
     set (concat (map answers (filter (\<lambda>f. fkind f = k \<and> q \<in> set (questions f)) fs)))"

definition kind_questions :: "Fact list \<Rightarrow> string option \<Rightarrow> string set" where
  "kind_questions fs k = set (concat (map questions (filter (\<lambda>f. fkind f = k) fs)))"

text \<open>
  The dict \<open>kinds\<close> read as sets: the correct answers of a question in a kind group,
  the questions of the group and the answers of the group.
\<close>

definition gq :: "kinds \<Rightarrow> string option \<Rightarrow> string \<Rightarrow> string set" where
  "gq ks k q = dset (fst (group_of ks k)) q"

definition gkeys :: "kinds \<Rightarrow> string option \<Rightarrow> string set" where
  "gkeys ks k = fst ` set (fst (group_of ks k))"

definition ga :: "kinds \<Rightarrow> string option \<Rightarrow> string set" where
  "ga ks k = fst ` set (snd (group_of ks k))"

text \<open>
  What a Record of \<open>_MCM.build\<close> is, given the answers and the question dict of its
  kind group; and the property of claim C1 for a Record and a fact kind, with the pools
  computed from the facts.
\<close>

definition mcm_record ::
  "category_class \<Rightarrow> string list \<Rightarrow> (string \<times> string list) list \<Rightarrow> Record \<Rightarrow> bool" where
  "mcm_record c al qd r \<longleftrightarrow>
     (\<exists>correct smp.
        (question r, correct) \<in> set qd \<and> answer r \<in> set correct \<and> kind r = NAME c
      \<and> mset (choices r) = add_mset (answer r) (mset smp)
      \<and> mset smp \<subseteq># mset (filter (\<lambda>a. a \<notin> set correct) al)
      \<and> length smp = min (length (filter (\<lambda>a. a \<notin> set correct) al)) (CHOICES c))"

definition choices_ok :: "Fact list \<Rightarrow> nat \<Rightarrow> Record \<Rightarrow> string option \<Rightarrow> bool" where
  "choices_ok fs C r k \<longleftrightarrow>
     question r \<in> kind_questions fs k
   \<and> answer r \<in> correct_answers fs k (question r)
   \<and> count_list (choices r) (answer r) = 1
   \<and> length (choices r)
       = min (card (kind_answers fs k - correct_answers fs k (question r))) C + 1
   \<and> set (choices r)
       \<subseteq> insert (answer r) (kind_answers fs k - correct_answers fs k (question r))"

text \<open>
  In the words of claim C9: the number of Records one \<open>build()\<close> appends for a
  question text, computed from the facts alone. A true/false category has one Record for
  every question text of its facts; a Matching or MultipleChoice category has one for
  every fact kind under which the question text occurs (one, when all its facts carry the
  same kind, as in every matching category the parser builds). Then what a built Record
  is: the property of claim C5 in a true/false category, that of claim C1 otherwise.
\<close>

definition records_per_build :: "Category \<Rightarrow> string \<Rightarrow> nat" where
  "records_per_build c q =
     (if cls c = TrueOrFalse
      then (if \<exists>f \<in> set (facts c). q \<in> set (questions f) then 1 else 0)
      else length (remdups (map fkind (filter (\<lambda>f. q \<in> set (questions f)) (facts c)))))"

definition built_record :: "Category \<Rightarrow> Record \<Rightarrow> bool" where
  "built_record c r \<longleftrightarrow>
     (if cls c = TrueOrFalse
      then kind r = ''True or False''
         \<and> (choices r = [''True'', ''False''] \<or> choices r = [''False'', ''True''])
         \<and> count_list (choices r) (answer r) = 1
         \<and> recorded_answers (facts c) (question r) = {answer r}
      else kind r = NAME (cls c)
         \<and> (\<exists>k. choices_ok (facts c) (CHOICES (cls c)) r k))"

text \<open>
  For the roll-up: the number of answers a Report has counted, the number of question
  events yielded so far, and what a stretch of a session does to a Report \<open>p\<close> that
  exists already: it leaves the other existing Reports alone, keeps the flag and the
  parent of \<open>p\<close>, and adds to \<open>p\<close> as many answers as it yields questions.
\<close>

definition tally :: "store \<Rightarrow> nat \<Rightarrow> int" where
  "tally h r = right (h r) + wrong (h r)"

definition questions_yielded :: "session \<Rightarrow> nat" where
  "questions_yielded s = length (filter is_Question_event (events s))"

definition rolls_up :: "nat \<Rightarrow> session \<Rightarrow> session \<Rightarrow> bool" where
  "rolls_up p s s' \<longleftrightarrow>
     allocated s \<le> allocated s'
   \<and> (\<forall>x < allocated s. x \<noteq> p \<longrightarrow> reports s' x = reports s x)
   \<and> finalized (reports s' p) = finalized (reports s p)
   \<and> parent (reports s' p) = parent (reports s p)
   \<and> tally (reports s') p + int (questions_yielded s)
       = tally (reports s) p + int (questions_yielded s')"

section \<open>The Report and Question protocol\<close>

text \<open>
  Claim C2. The claim: when a parent Report is finalized before one of its children, the
  child's later \<open>finalize()\<close> fails and the finalized parent's right count, wrong count
  and problem list stay as they were. The code does otherwise: \<open>right_answer\<close>,
  \<open>wrong_answer\<close> and \<open>review\<close> refuse to touch a finalized Report, but \<open>finalize\<close>
  tests only its own flag and then adds into the parent's fields directly. Below, a
  chapter Report (reference 0) and a section Report (reference 1, parent 0) with one
  right answer: the chapter is finalized first, with right count 0; the section's
  \<open>finalize\<close> then returns without an exception and the finalized chapter's right count
  has become 1.
\<close>

theorem C2_child_finalize_writes_into_finalized_parent:
  "finalized (snd (finalize (snd (right_answer
       ((\<lambda>_. Report_init ''Chapter'' None)(1 := Report_init ''Section'' (Some 0))) 1)) 0) 0)
   \<and> right (snd (finalize (snd (right_answer
       ((\<lambda>_. Report_init ''Chapter'' None)(1 := Report_init ''Section'' (Some 0))) 1)) 0) 0) = 0
   \<and> fst (finalize (snd (finalize (snd (right_answer
       ((\<lambda>_. Report_init ''Chapter'' None)(1 := Report_init ''Section'' (Some 0))) 1)) 0)) 1) = None
   \<and> right (snd (finalize (snd (finalize (snd (right_answer
       ((\<lambda>_. Report_init ''Chapter'' None)(1 := Report_init ''Section'' (Some 0))) 1)) 0)) 1) 0) = 1"
  by (simp add: finalize_def right_answer_def Report_init_def)

text \<open>
  Claim C7. \<open>finalize\<close> on a Report that is already finalized raises and leaves the
  store as it was (counters, problem list and flag of every Report); \<open>right\<close>,
  \<open>wrong\<close> and \<open>total\<close> raise on a Report that is not yet finalized, and as
  read-only properties they write nothing.
\<close>

theorem C7_failed_calls_change_nothing:
  "(finalized (h r) \<longrightarrow> finalize h r = (Some (RuntimeError ''Report is finalized!''), h))
   \<and> (\<not> finalized (h r) \<longrightarrow>
        Report_right h r = Inl (RuntimeError ''Report is not finalized!'')
      \<and> Report_wrong h r = Inl (RuntimeError ''Report is not finalized!'')
      \<and> Report_total h r = Inl (RuntimeError ''Report is not finalized!''))"
  by (simp add: finalize_def Report_right_def Report_wrong_def Report_total_def)

theorem C7_failed_calls_change_nothing_witness:
  "finalize (snd (finalize (\<lambda>_. Report_init ''Section'' None) 0)) 0
     = (Some (RuntimeError ''Report is finalized!''),
        snd (finalize (\<lambda>_. Report_init ''Section'' None) 0))
   \<and> Report_right (\<lambda>_. Report_init ''Section'' None) 0
       = Inl (RuntimeError ''Report is not finalized!'')
   \<and> Report_wrong (\<lambda>_. Report_init ''Section'' None) 0
       = Inl (RuntimeError ''Report is not finalized!'')
   \<and> Report_total (\<lambda>_. Report_init ''Section'' None) 0
       = Inl (RuntimeError ''Report is not finalized!'')"
  using C7_failed_calls_change_nothing
          [of "snd (finalize (\<lambda>_. Report_init ''Section'' None) 0)" 0]
        C7_failed_calls_change_nothing [of "\<lambda>_. Report_init ''Section'' None" 0]
  by (simp add: finalize_def Report_init_def)

text \<open>
  Claim C8. For an unanswered Question and an index \<open>i\<close> with
  \<open>choices[i] == right\<close>, \<open>answer(i)\<close> and \<open>answer(right)\<close> return the same
  outcome, store and question. While the bound Report is open that outcome is: no
  exception, the question marked answered, the Report's right count one higher, its
  wrong count and problem list as before, and every other Report untouched.
\<close>

theorem C8_index_and_text_agree:
  assumes "\<not> q_answered q"
    and "tuple_getitem (q_choices q) i = Inr (q_right q)"
  shows "Question_answer h q (An_int i) = Question_answer h q (A_str (q_right q))
    \<and> (\<not> finalized (h (q_report q)) \<longrightarrow>
         (case Question_answer h q (An_int i) of
            (e, h', q') \<Rightarrow>
              e = None \<and> q_answered q'
            \<and> right (h' (q_report q)) = right (h (q_report q)) + 1
            \<and> wrong (h' (q_report q)) = wrong (h (q_report q))
            \<and> problems (h' (q_report q)) = problems (h (q_report q))
            \<and> (\<forall>r. r \<noteq> q_report q \<longrightarrow> h' r = h r)))"
  using assms by (simp add: Question_answer_def right_answer_def)

theorem C8_index_and_text_agree_witness:
  "Question_answer (\<lambda>_. Report_init ''Section'' None)
       (Question_init 0 \<lparr>kind = ''Matching'', question = ''Capital of France'',
                          choices = [''Rome'', ''Paris''], answer = ''Paris''\<rparr>) (An_int 1)
     = Question_answer (\<lambda>_. Report_init ''Section'' None)
       (Question_init 0 \<lparr>kind = ''Matching'', question = ''Capital of France'',
                          choices = [''Rome'', ''Paris''], answer = ''Paris''\<rparr>) (A_str ''Paris'')
   \<and> fst (Question_answer (\<lambda>_. Report_init ''Section'' None)
       (Question_init 0 \<lparr>kind = ''Matching'', question = ''Capital of France'',
                          choices = [''Rome'', ''Paris''], answer = ''Paris''\<rparr>) (An_int 1)) = None
   \<and> right (fst (snd (Question_answer (\<lambda>_. Report_init ''Section'' None)
       (Question_init 0 \<lparr>kind = ''Matching'', question = ''Capital of France'',
                          choices = [''Rome'', ''Paris''], answer = ''Paris''\<rparr>) (An_int 1))) 0) = 1"
  using C8_index_and_text_agree
    [of "Question_init 0 \<lparr>kind = ''Matching'', question = ''Capital of France'',
                          choices = [''Rome'', ''Paris''], answer = ''Paris''\<rparr>" 1
        "\<lambda>_. Report_init ''Section'' None"]
  by (simp add: Question_init_def Report_init_def tuple_getitem_def split: prod.splits)

text \<open>
  Claim C10. \<open>answer(i)\<close> on an unanswered Question with \<open>i\<close> outside
  \<open>-len(choices) .. len(choices) - 1\<close> raises IndexError and changes neither the store
  of Reports nor the question, which is still unanswered: a following \<open>answer(j)\<close>
  with \<open>j\<close> in range raises nothing while the bound Report is open.
\<close>

theorem C10_bad_index_is_atomic:
  assumes "\<not> q_answered q"
    and "i < - int (length (q_choices q)) \<or> int (length (q_choices q)) \<le> i"
  shows "Question_answer h q (An_int i) = (Some IndexError, h, q)
    \<and> (\<forall>j. - int (length (q_choices q)) \<le> j \<and> j < int (length (q_choices q))
           \<and> \<not> finalized (h (q_report q)) \<longrightarrow>
         (case Question_answer h q (An_int i) of
            (e, h', q') \<Rightarrow> fst (Question_answer h' q' (An_int j)) = None))"
  using assms
  by (auto simp add: Question_answer_def tuple_getitem_def Let_def right_answer_def
        wrong_answer_def review_def split: prod.splits option.splits if_splits)

theorem C10_bad_index_is_atomic_witness:
  "Question_answer (\<lambda>_. Report_init ''Section'' None)
       (Question_init 0 \<lparr>kind = ''Matching'', question = ''Capital of France'',
                          choices = [''Rome'', ''Paris''], answer = ''Paris''\<rparr>) (An_int 2)
     = (Some IndexError, \<lambda>_. Report_init ''Section'' None,
        Question_init 0 \<lparr>kind = ''Matching'', question = ''Capital of France'',
                          choices = [''Rome'', ''Paris''], answer = ''Paris''\<rparr>)
   \<and> fst (Question_answer (\<lambda>_. Report_init ''Section'' None)
       (Question_init 0 \<lparr>kind = ''Matching'', question = ''Capital of France'',
                          choices = [''Rome'', ''Paris''], answer = ''Paris''\<rparr>) (An_int (- 1))) = None"
proof -
  let ?h = "\<lambda>_. Report_init ''Section'' None"
  let ?q = "Question_init 0 \<lparr>kind = ''Matching'', question = ''Capital of France'',
                          choices = [''Rome'', ''Paris''], answer = ''Paris''\<rparr>"
  have a: "\<not> q_answered ?q"
    by (simp add: Question_init_def)
  have b: "2 < - int (length (q_choices ?q)) \<or> int (length (q_choices ?q)) \<le> 2"
    by (simp add: Question_init_def)
  note t = C10_bad_index_is_atomic [where h = ?h, OF a b]
  note failed = conjunct1 [OF t]
  note later = spec [OF conjunct2 [OF t], of "- 1"]
  have "fst (Question_answer ?h ?q (An_int (- 1))) = None"
    using later unfolding failed by (simp add: Question_init_def Report_init_def)
  with failed show ?thesis by simp
qed

section \<open>Construction of the structural model\<close>

lemma map_raise_fails:
  "x \<in> set xs \<Longrightarrow> isl (f x) \<Longrightarrow> isl (map_raise f xs)"
  by (induction xs) (auto split: sum.splits)

lemma map_raise_Inl:
  "map_raise f xs = Inl e \<Longrightarrow> \<exists>x \<in> set xs. f x = Inl e"
  by (induction xs) (auto split: sum.splits)

lemma map_raise_Inr:
  "map_raise f xs = Inr ys \<Longrightarrow> length ys = length xs \<and> (\<forall>i < length xs. f (xs ! i) = Inr (ys ! i))"
proof (induction xs arbitrary: ys)
  case Nil
  then show ?case by simp
next
  case (Cons x xs)
  then show ?case
    by (auto split: sum.splits simp: nth_Cons split: nat.splits)
qed

lemma Fact_children_Inr:
  "Fact_children tf cs qs ans = Inr (qs', ans') \<Longrightarrow>
     qs' = qs @ map node_text [c \<leftarrow> cs. node_class c = testbank_Question]
   \<and> ans' = ans @ map node_text [c \<leftarrow> cs. node_class c = testbank_Answer]
   \<and> (\<forall>c \<in> set cs. node_class c = testbank_Question \<or> node_class c = testbank_Answer)
   \<and> (tf \<longrightarrow> (\<forall>c \<in> set cs. node_class c = testbank_Answer
                 \<longrightarrow> node_text c \<in> {''True'', ''False''}))"
proof (induction cs arbitrary: qs ans)
  case Nil
  then show ?case by simp
next
  case (Cons child rest)
  show ?case
  proof (cases "node_class child = testbank_Question")
    case True
    with Cons.prems have "Fact_children tf rest (qs @ [node_text child]) ans = Inr (qs', ans')"
      by simp
    from Cons.IH[OF this] True show ?thesis by simp
  next
    case False
    note nq = this
    show ?thesis
    proof (cases "node_class child = testbank_Answer")
      case True
      with nq Cons.prems obtain a where a: "Answer_init child tf = Inr a"
        and r: "Fact_children tf rest qs (ans @ [a]) = Inr (qs', ans')"
        by (simp split: sum.splits)
      from a have "a = node_text child" and "tf \<longrightarrow> node_text child \<in> {''True'', ''False''}"
        by (simp_all add: Answer_init_def split: if_splits)
      with Cons.IH[OF r] True nq show ?thesis by simp
    next
      case False
      with nq Cons.prems show ?thesis by simp
    qed
  qed
qed

lemma Fact_children_Inl:
  "Fact_children tf cs qs ans = Inl e \<Longrightarrow>
     \<forall>c \<in> set cs. node_class c = testbank_Question \<or> node_class c = testbank_Answer \<Longrightarrow>
     structural e"
proof (induction cs arbitrary: qs ans)
  case Nil
  then show ?case by simp
next
  case (Cons child rest)
  show ?case
  proof (cases "node_class child = testbank_Question")
    case True
    with Cons show ?thesis by simp
  next
    case False
    with Cons.prems have cl: "node_class child = testbank_Answer" by simp
    show ?thesis
    proof (cases "Answer_init child tf")
      case (Inl e')
      with cl Cons.prems have "e = e'" by simp
      with Inl show ?thesis
        by (auto simp add: Answer_init_def structural_def split: if_splits)
    next
      case (Inr a)
      with cl Cons show ?thesis by simp
    qed
  qed
qed

lemma Fact_init_no_answers:
  "[c \<leftarrow> children fa. node_class c = testbank_Answer] = [] \<Longrightarrow> isl (Fact_init fa tf)"
  by (auto simp: Fact_init_def split: sum.splits dest!: Fact_children_Inr)

lemma Fact_init_bad_answer:
  "a \<in> set (children fa) \<Longrightarrow> node_class a = testbank_Answer \<Longrightarrow>
   node_text a \<notin> {''True'', ''False''} \<Longrightarrow> isl (Fact_init fa True)"
  by (auto simp: Fact_init_def split: sum.splits dest!: Fact_children_Inr)

lemma Fact_init_Inl:
  "Fact_init fa tf = Inl e \<Longrightarrow>
   \<forall>c \<in> set (children fa). node_class c = testbank_Question \<or> node_class c = testbank_Answer \<Longrightarrow>
   structural e"
  by (auto simp: Fact_init_def structural_def split: sum.splits if_splits dest: Fact_children_Inl)

lemma fact_defect_fails: "fact_defect tf fa \<Longrightarrow> isl (Fact_init fa tf)"
  unfolding fact_defect_def
  using Fact_init_no_answers Fact_init_bad_answer by (cases tf) auto

lemma category_defect_fails: "category_defect ca \<Longrightarrow> isl (get_category ca)"
proof -
  assume d: "category_defect ca"
  show ?thesis
  proof (cases "CATEGORY (attr ca)")
    case None
    then show ?thesis by (simp add: get_category_def)
  next
    case (Some c)
    then have known: "attr ca \<in> {Some ''matching'', Some ''multiple_choice'', Some ''true_or_false''}"
      by (auto simp: CATEGORY_def split: if_splits)
    have tf: "(c = TrueOrFalse) = (attr ca = Some ''true_or_false'')"
      using Some by (auto simp: CATEGORY_def split: if_splits)
    from d known consider "children ca = []"
      | fa where "fa \<in> set (children ca)" "fact_defect (c = TrueOrFalse) fa"
      unfolding category_defect_def tf by blast
    then have "isl (Category_init c ca)"
    proof cases
      case 1
      then show ?thesis by (simp add: Category_init_def)
    next
      case 2
      then have "isl (map_raise (\<lambda>child. Fact_init child (c = TrueOrFalse)) (children ca))"
        by (intro map_raise_fails[of fa]) (auto intro: fact_defect_fails)
      then show ?thesis by (auto simp: Category_init_def split: sum.splits)
    qed
    with Some show ?thesis by (simp add: get_category_def)
  qed
qed


lemma section_defect_fails: "section_defect se \<Longrightarrow> isl (Section_init se)"
proof -
  assume "section_defect se"
  then consider "children se = []" | ca where "ca \<in> set (children se)" "category_defect ca"
    unfolding section_defect_def by blast
  then show ?thesis
  proof cases
    case 1
    then show ?thesis by (simp add: Section_init_def)
  next
    case 2
    then have "isl (map_raise get_category (children se))"
      by (intro map_raise_fails[of ca]) (auto intro: category_defect_fails)
    then show ?thesis by (auto simp: Section_init_def split: sum.splits)
  qed
qed

lemma chapter_defect_fails: "chapter_defect ch \<Longrightarrow> isl (Chapter_init ch)"
proof -
  assume "chapter_defect ch"
  then consider "children ch = []" | se where "se \<in> set (children ch)" "section_defect se"
    unfolding chapter_defect_def by blast
  then show ?thesis
  proof cases
    case 1
    then show ?thesis by (simp add: Chapter_init_def)
  next
    case 2
    then have "isl (map_raise Section_init (children ch))"
      by (intro map_raise_fails[of se]) (auto intro: section_defect_fails)
    then show ?thesis by (auto simp: Chapter_init_def split: sum.splits)
  qed
qed

lemma testbank_defect_fails: "testbank_defect root \<Longrightarrow> isl (UnitTest_init root)"
proof -
  assume "testbank_defect root"
  then consider "children root = []" | ch where "ch \<in> set (children root)" "chapter_defect ch"
    unfolding testbank_defect_def by blast
  then show ?thesis
  proof cases
    case 1
    then show ?thesis by (simp add: UnitTest_init_def)
  next
    case 2
    then have "isl (map_raise Chapter_init (children root))"
      by (intro map_raise_fails[of ch]) (auto intro: chapter_defect_fails)
    then show ?thesis by (auto simp: UnitTest_init_def split: sum.splits)
  qed
qed

lemma Category_init_Inl:
  assumes "Category_init c ca = Inl e"
    and "\<forall>fa \<in> set (children ca). \<forall>x \<in> set (children fa).
           node_class x = testbank_Question \<or> node_class x = testbank_Answer"
  shows "structural e"
proof (cases "map_raise (\<lambda>child. Fact_init child (c = TrueOrFalse)) (children ca)")
  case (Inl e')
  with assms(1) have "e' = e" by (simp add: Category_init_def)
  with Inl obtain fa where "fa \<in> set (children ca)" "Fact_init fa (c = TrueOrFalse) = Inl e"
    by (auto dest: map_raise_Inl)
  with assms(2) show ?thesis by (auto dest: Fact_init_Inl)
next
  case (Inr fs)
  with assms(1) show ?thesis
    by (auto simp: Category_init_def structural_def split: if_splits)
qed

lemma get_category_Inl:
  assumes "get_category ca = Inl e"
    and "\<forall>fa \<in> set (children ca). \<forall>x \<in> set (children fa).
           node_class x = testbank_Question \<or> node_class x = testbank_Answer"
  shows "structural e"
proof (cases "CATEGORY (attr ca)")
  case None
  with assms(1) show ?thesis by (auto simp: get_category_def structural_def)
next
  case (Some c)
  with assms(1) have "Category_init c ca = Inl e" by (simp add: get_category_def)
  then show ?thesis using assms(2) by (rule Category_init_Inl)
qed

lemma Section_init_Inl:
  assumes "Section_init se = Inl e"
    and "\<forall>ca \<in> set (children se). \<forall>fa \<in> set (children ca). \<forall>x \<in> set (children fa).
           node_class x = testbank_Question \<or> node_class x = testbank_Answer"
  shows "structural e"
proof (cases "map_raise get_category (children se)")
  case (Inl e')
  with assms(1) have "e' = e" by (simp add: Section_init_def)
  with Inl obtain ca where "ca \<in> set (children se)" "get_category ca = Inl e"
    by (auto dest: map_raise_Inl)
  with assms(2) show ?thesis by (auto dest: get_category_Inl)
next
  case (Inr cs)
  with assms(1) show ?thesis
    by (auto simp: Section_init_def structural_def split: if_splits)
qed

lemma Chapter_init_Inl:
  assumes "Chapter_init ch = Inl e"
    and "\<forall>se \<in> set (children ch). \<forall>ca \<in> set (children se). \<forall>fa \<in> set (children ca).
           \<forall>x \<in> set (children fa).
           node_class x = testbank_Question \<or> node_class x = testbank_Answer"
  shows "structural e"
proof (cases "map_raise Section_init (children ch)")
  case (Inl e')
  with assms(1) have "e' = e" by (simp add: Chapter_init_def)
  with Inl obtain se where "se \<in> set (children ch)" "Section_init se = Inl e"
    by (auto dest: map_raise_Inl)
  with assms(2) show ?thesis by (auto dest: Section_init_Inl)
next
  case (Inr cs)
  with assms(1) show ?thesis
    by (auto simp: Chapter_init_def structural_def split: if_splits)
qed

lemma UnitTest_init_Inl:
  assumes "UnitTest_init root = Inl e"
    and "\<forall>ch \<in> set (children root). \<forall>se \<in> set (children ch). \<forall>ca \<in> set (children se).
           \<forall>fa \<in> set (children ca). \<forall>x \<in> set (children fa).
           node_class x = testbank_Question \<or> node_class x = testbank_Answer"
  shows "structural e"
proof (cases "map_raise Chapter_init (children root)")
  case (Inl e')
  with assms(1) have "e' = e" by (simp add: UnitTest_init_def)
  with Inl obtain ch where "ch \<in> set (children root)" "Chapter_init ch = Inl e"
    by (auto dest: map_raise_Inl)
  with assms(2) show ?thesis by (auto dest: Chapter_init_Inl)
next
  case (Inr cs)
  with assms(1) show ?thesis
    by (auto simp: UnitTest_init_def structural_def split: if_splits)
qed

text \<open>
  Claim C4. Construction of the structural model from a document-tree root raises when
  the root has no chapter, a chapter no section, a section no category, a category no
  fact or a fact no answer node, when a category's type is none of \<open>matching\<close>,
  \<open>multiple_choice\<close>, \<open>true_or_false\<close>, or when an answer of a true/false
  category is neither \<open>True\<close> nor \<open>False\<close>. \<open>FAQ.__init__\<close> runs that
  construction, so no session starts on such a tree. The exception is the first one the
  depth-first construction meets; in a tree where the children of facts are question and
  answer nodes (as the parser builds it) it is a \<open>RuntimeError\<close> or a
  \<open>ValueError\<close>.
\<close>

theorem C4_defective_testbank_is_rejected:
  assumes "children root = []
     \<or> (\<exists>ch \<in> set (children root). children ch = []
        \<or> (\<exists>se \<in> set (children ch). children se = []
           \<or> (\<exists>ca \<in> set (children se).
                attr ca \<notin> {Some ''matching'', Some ''multiple_choice'', Some ''true_or_false''}
              \<or> children ca = []
              \<or> (\<exists>fa \<in> set (children ca).
                   [c \<leftarrow> children fa. node_class c = testbank_Answer] = []
                 \<or> (attr ca = Some ''true_or_false''
                    \<and> (\<exists>a \<in> set (children fa). node_class a = testbank_Answer
                          \<and> node_text a \<notin> {''True'', ''False''}))))))"
  shows "\<exists>e. UnitTest_init root = Inl e \<and> FAQ_init root = Inl e
     \<and> ((\<forall>ch \<in> set (children root). \<forall>se \<in> set (children ch). \<forall>ca \<in> set (children se).
           \<forall>fa \<in> set (children ca). \<forall>x \<in> set (children fa).
             node_class x = testbank_Question \<or> node_class x = testbank_Answer)
         \<longrightarrow> structural e)"
proof -
  from assms have "testbank_defect root"
    unfolding testbank_defect_def chapter_defect_def section_defect_def category_defect_def
      fact_defect_def
    by blast
  then have "isl (UnitTest_init root)"
    by (rule testbank_defect_fails)
  then obtain e where e: "UnitTest_init root = Inl e"
    by (cases "UnitTest_init root") auto
  then have "FAQ_init root = Inl e"
    by (simp add: FAQ_init_def)
  with e UnitTest_init_Inl[OF e] show ?thesis by blast
qed

theorem C4_defective_testbank_is_rejected_witness:
  "UnitTest_init (Node testbank_TestBank (Some ''Bank'') [] [
      Node testbank_Chapter (Some ''One'') [] [
        Node testbank_Section (Some ''A'') [] [
          Node testbank_Category (Some ''true_or_false'') [] [
            Node testbank_Fact None [] [
              Node testbank_Question None ''Sky is blue'' [],
              Node testbank_Answer None ''Maybe'' []]]]]])
   = Inl (RuntimeError ''Answer is invalid!'')
   \<and> structural (RuntimeError ''Answer is invalid!'')"
  using C4_defective_testbank_is_rejected [of "Node testbank_TestBank (Some ''Bank'') [] [
      Node testbank_Chapter (Some ''One'') [] [
        Node testbank_Section (Some ''A'') [] [
          Node testbank_Category (Some ''true_or_false'') [] [
            Node testbank_Fact None [] [
              Node testbank_Question None ''Sky is blue'' [],
              Node testbank_Answer None ''Maybe'' []]]]]]"]
  by (simp add: UnitTest_init_def Chapter_init_def Section_init_def get_category_def
        CATEGORY_def Category_init_def Fact_init_def Answer_init_def structural_def)

section \<open>Category builders\<close>

subsection \<open>Random draws\<close>

lemma randbelow_less: "0 < n \<Longrightarrow> fst (randbelow n g) < n"
  by (cases g) simp_all

lemma mset_remove_nth:
  "i < length xs \<Longrightarrow> mset xs = add_mset (xs ! i) (mset (take i xs @ drop (Suc i) xs))"
proof -
  assume "i < length xs"
  then have "xs = take i xs @ xs ! i # drop (Suc i) xs"
    by (rule id_take_nth_drop)
  then have "mset xs = mset (take i xs @ xs ! i # drop (Suc i) xs)"
    by simp
  then show ?thesis by simp
qed

lemma draw_mset:
  "k \<le> length pop \<Longrightarrow>
     mset (fst (draw pop k g)) \<subseteq># mset pop \<and> length (fst (draw pop k g)) = k"
proof (induction k arbitrary: pop g)
  case 0
  then show ?case by simp
next
  case (Suc k)
  obtain i g1 where r: "randbelow (length pop) g = (i, g1)"
    by (cases "randbelow (length pop) g")
  from Suc.prems have "0 < length pop" by (cases pop) auto
  with r have i: "i < length pop"
    using randbelow_less[of "length pop" g] by simp
  let ?rest = "take i pop @ drop (Suc i) pop"
  from i Suc.prems have "k \<le> length ?rest" by simp
  from Suc.IH[OF this, of g1]
  have ih: "mset (fst (draw ?rest k g1)) \<subseteq># mset ?rest"
    and len: "length (fst (draw ?rest k g1)) = k" by simp_all
  from r have d: "fst (draw pop (Suc k) g) = pop ! i # fst (draw ?rest k g1)"
    by (simp split: prod.splits)
  from ih have "add_mset (pop ! i) (mset (fst (draw ?rest k g1))) \<subseteq># add_mset (pop ! i) (mset ?rest)"
    by simp
  with mset_remove_nth[OF i] d len show ?case by simp
qed

lemma draw_all_mset: "mset (fst (draw xs (length xs) g)) = mset xs"
proof -
  from draw_mset[of "length xs" xs g]
  have sub: "mset (fst (draw xs (length xs) g)) \<subseteq># mset xs"
    and "size (mset (fst (draw xs (length xs) g))) = size (mset xs)" by simp_all
  then show ?thesis
    using mset_subset_size subset_mset.less_le by fastforce
qed

lemma random_shuffle_mset: "mset (fst (random_shuffle xs g)) = mset xs"
  by (simp add: random_shuffle_def draw_all_mset)

lemma random_sample_ok:
  assumes "k \<le> length pop"
  shows "\<exists>smp g1. random_sample pop k g = Inr (smp, g1)
           \<and> mset smp \<subseteq># mset pop \<and> length smp = k"
proof -
  from assms have "random_sample pop k g = Inr (draw pop k g)"
    by (simp add: random_sample_def)
  with draw_mset[OF assms, of g] show ?thesis
    by (cases "draw pop k g") auto
qed

lemma random_choice_ok:
  assumes "seq \<noteq> []"
  shows "\<exists>x g1. random_choice seq g = Inr (x, g1) \<and> x \<in> set seq"
proof -
  obtain i g1 where r: "randbelow (length seq) g = (i, g1)"
    by (cases "randbelow (length seq) g")
  from assms have "0 < length seq" by simp
  with r have "i < length seq"
    using randbelow_less[of "length seq" g] by simp
  with r assms show ?thesis by (simp add: random_choice_def)
qed

lemma sample_true_false:
  "\<exists>smp g1. random_sample [a, b] 2 g = Inr (smp, g1) \<and> (smp = [a, b] \<or> smp = [b, a])"
proof -
  have two: "(2::nat) = Suc (Suc 0)" by simp
  show ?thesis
  proof (cases g)
    case Nil
    then show ?thesis by (simp add: random_sample_def two)
  next
    case (Cons r g')
    have "r mod 2 = 0 \<or> r mod 2 = 1" by arith
    then show ?thesis
    proof
      assume "r mod 2 = 0"
      with Cons show ?thesis
        by (cases g') (simp_all add: random_sample_def two)
    next
      assume "r mod 2 = 1"
      with Cons show ?thesis
        by (cases g') (simp_all add: random_sample_def two)
    qed
  qed
qed

text \<open>
  Conversely, whatever the library may return is returned for some state of the random
  source: any arrangement of members of the population, any permutation, any element.
\<close>

lemma draw_complete:
  "mset ys \<subseteq># mset pop \<Longrightarrow> \<exists>g. fst (draw pop (length ys) g) = ys"
proof (induction ys arbitrary: pop)
  case Nil
  then show ?case by simp
next
  case (Cons y ys)
  from Cons.prems have "y \<in> set pop"
    by (metis list.set_intros(1) mset_subset_eqD set_mset_mset)
  then obtain i where i: "i < length pop" "pop ! i = y"
    by (auto simp: in_set_conv_nth)
  let ?rest = "take i pop @ drop (Suc i) pop"
  from mset_remove_nth[OF i(1)] i(2) have "mset pop = add_mset y (mset ?rest)" by simp
  with Cons.prems have "mset ys \<subseteq># mset ?rest" by simp
  from Cons.IH[OF this] obtain g where g: "fst (draw ?rest (length ys) g) = ys" by blast
  have "fst (draw pop (length (y # ys)) (i # g)) = y # ys"
    using i g by (cases "draw ?rest (length ys) g") simp
  then show ?case by blast
qed

lemma random_shuffle_complete:
  "mset ys = mset xs \<Longrightarrow> \<exists>g. fst (random_shuffle xs g) = ys"
proof -
  assume a: "mset ys = mset xs"
  then have "length ys = length xs" by (rule mset_eq_length)
  moreover from a have "mset ys \<subseteq># mset xs" by simp
  ultimately show ?thesis
    using draw_complete[of ys xs] by (simp add: random_shuffle_def)
qed

lemma random_choice_complete:
  "x \<in> set seq \<Longrightarrow> \<exists>g g1. random_choice seq g = Inr (x, g1)"
proof -
  assume "x \<in> set seq"
  then obtain i where i: "i < length seq" "seq ! i = x"
    by (auto simp: in_set_conv_nth)
  then have "random_choice seq [i] = Inr (x, [])"
    by (auto simp: random_choice_def)
  then show ?thesis by blast
qed

subsection \<open>Facts\<close>

lemma dict_update_const_fresh:
  "distinct ks \<Longrightarrow> set ks \<inter> fst ` set d = {} \<Longrightarrow>
     dict_update_const d ks v = d @ map (\<lambda>k. (k, v)) ks"
proof (induction ks arbitrary: d)
  case Nil
  then show ?case by (simp add: dict_update_const_def)
next
  case (Cons k ks)
  from Cons.prems have notin: "k \<notin> fst ` set d" by auto
  have upd: "AList.update k v d = d @ [(k, v)]"
    using notin by (induction d) auto
  from Cons.prems have "set ks \<inter> fst ` set (d @ [(k, v)]) = {}" by auto
  from Cons.IH[OF _ this] Cons.prems
  have "dict_update_const (d @ [(k, v)]) ks v = (d @ [(k, v)]) @ map (\<lambda>k. (k, v)) ks"
    by simp
  with upd show ?case by (simp add: dict_update_const_def)
qed

lemma dict_update_const_again:
  "\<forall>k \<in> set ks. map_of d k = Some v \<Longrightarrow> dict_update_const d ks v = d"
  unfolding dict_update_const_def
  by (induction ks) (simp_all add: update_triv)

lemma map_of_const_map: "k \<in> set ks \<Longrightarrow> map_of (map (\<lambda>k. (k, v)) ks) k = Some v"
  by (induction ks) auto

lemma Fact_build_fields:
  assumes "fresh_or_built f"
  shows "q_to_a (Fact_build f) = built_q_to_a f" and "a_to_q (Fact_build f) = built_a_to_q f"
    and "fkind (Fact_build f) = fkind f" and "questions (Fact_build f) = questions f"
    and "answers (Fact_build f) = answers f"
proof -
  from assms have "q_to_a f = [] \<or> q_to_a f = built_q_to_a f"
    by (simp add: fresh_or_built_def)
  then show "q_to_a (Fact_build f) = built_q_to_a f"
  proof
    assume "q_to_a f = []"
    then show ?thesis
      by (simp add: Fact_build_def Let_def built_q_to_a_def dict_update_const_fresh)
  next
    assume b: "q_to_a f = built_q_to_a f"
    have "dict_update_const (built_q_to_a f) (remdups (questions f)) (remdups (answers f))
            = built_q_to_a f"
      by (rule dict_update_const_again) (simp add: built_q_to_a_def map_of_const_map)
    with b show ?thesis by (simp add: Fact_build_def Let_def)
  qed
  from assms have "a_to_q f = [] \<or> a_to_q f = built_a_to_q f"
    by (simp add: fresh_or_built_def)
  then show "a_to_q (Fact_build f) = built_a_to_q f"
  proof
    assume "a_to_q f = []"
    then show ?thesis
      by (simp add: Fact_build_def Let_def built_a_to_q_def dict_update_const_fresh)
  next
    assume b: "a_to_q f = built_a_to_q f"
    have "dict_update_const (built_a_to_q f) (remdups (answers f)) (remdups (questions f))
            = built_a_to_q f"
      by (rule dict_update_const_again) (simp add: built_a_to_q_def map_of_const_map)
    with b show ?thesis by (simp add: Fact_build_def Let_def)
  qed
  show "fkind (Fact_build f) = fkind f" "questions (Fact_build f) = questions f"
    "answers (Fact_build f) = answers f"
    by (simp_all add: Fact_build_def Let_def)
qed

lemma Fact_build_built: "fresh_or_built f \<Longrightarrow> fresh_or_built (Fact_build f)"
  using Fact_build_fields[of f]
  by (simp add: fresh_or_built_def built_q_to_a_def built_a_to_q_def)

lemma Fact_build_idem: "fresh_or_built f \<Longrightarrow> Fact_build (Fact_build f) = Fact_build f"
proof -
  assume a: "fresh_or_built f"
  note b = Fact_build_built[OF a]
  show ?thesis
    using Fact_build_fields[OF a] Fact_build_fields[OF b]
    by (simp add: built_q_to_a_def built_a_to_q_def)
qed

subsection \<open>What the constructor guarantees\<close>

lemma map_raise_members:
  "map_raise f xs = Inr ys \<Longrightarrow> y \<in> set ys \<Longrightarrow> \<exists>x \<in> set xs. f x = Inr y"
proof (induction xs arbitrary: ys)
  case Nil
  then show ?case by simp
next
  case (Cons x xs)
  then show ?case by (auto split: sum.splits)
qed

lemma Fact_init_Inr:
  assumes "Fact_init fa tf = Inr f"
  shows "q_to_a f = []" and "a_to_q f = []" and "answers f \<noteq> []"
    and "tf \<Longrightarrow> set (answers f) \<subseteq> {''True'', ''False''}"
proof -
  from assms obtain qs ans where fc: "Fact_children tf (children fa) [] [] = Inr (qs, ans)"
    and ne: "ans \<noteq> []"
    and f: "f = \<lparr>fkind = attr fa, questions = qs, answers = ans, q_to_a = [], a_to_q = []\<rparr>"
    by (auto simp: Fact_init_def split: sum.splits if_splits)
  from f show "q_to_a f = []" "a_to_q f = []" by simp_all
  from f ne show "answers f \<noteq> []" by simp
  assume tf
  with Fact_children_Inr[OF fc] f show "set (answers f) \<subseteq> {''True'', ''False''}"
    by auto
qed

lemma get_category_Inr:
  assumes "get_category n = Inr c"
  shows "q_and_a c = []" and "facts c \<noteq> []"
    and "\<forall>f \<in> set (facts c). q_to_a f = [] \<and> a_to_q f = [] \<and> answers f \<noteq> []
           \<and> (cls c = TrueOrFalse \<longrightarrow> set (answers f) \<subseteq> {''True'', ''False''})"
proof -
  from assms obtain k where "Category_init k n = Inr c"
    by (auto simp: get_category_def split: option.splits)
  then obtain fs where m: "map_raise (\<lambda>child. Fact_init child (k = TrueOrFalse)) (children n) = Inr fs"
    and c: "c = \<lparr>cls = k, facts = fs, q_and_a = []\<rparr>" and ne: "fs \<noteq> []"
    by (auto simp: Category_init_def split: sum.splits if_splits)
  from c show "q_and_a c = []" by simp
  from c ne show "facts c \<noteq> []" by simp
  show "\<forall>f \<in> set (facts c). q_to_a f = [] \<and> a_to_q f = [] \<and> answers f \<noteq> []
           \<and> (cls c = TrueOrFalse \<longrightarrow> set (answers f) \<subseteq> {''True'', ''False''})"
  proof
    fix f assume "f \<in> set (facts c)"
    with c have "f \<in> set fs" by simp
    from map_raise_members[OF m this] obtain fa where "Fact_init fa (k = TrueOrFalse) = Inr f"
      by blast
    from Fact_init_Inr[OF this] c
    show "q_to_a f = [] \<and> a_to_q f = [] \<and> answers f \<noteq> []
           \<and> (cls c = TrueOrFalse \<longrightarrow> set (answers f) \<subseteq> {''True'', ''False''})"
      by simp
  qed
qed

lemma get_category_fresh:
  "get_category n = Inr c \<Longrightarrow> f \<in> set (facts c) \<Longrightarrow> fresh_or_built f"
  using get_category_Inr(3)[of n c] by (simp add: fresh_or_built_def)

subsection \<open>Dicts of sets\<close>

lemma dict_ok_Nil: "dict_ok []"
  by (simp add: dict_ok_def)

lemma set_update_subset: "set (AList.update k v d) \<subseteq> insert (k, v) (set d)"
  by (induction d) auto

lemma dict_ok_update: "dict_ok d \<Longrightarrow> distinct v \<Longrightarrow> dict_ok (AList.update k v d)"
  unfolding dict_ok_def using set_update_subset[of k v d]
  by (auto simp: distinct_update)

lemma dict_ok_lookup: "dict_ok d \<Longrightarrow> map_of d k = Some s \<Longrightarrow> distinct s"
  unfolding dict_ok_def by (auto dest: map_of_SomeD)

lemma dict_ok_member: "dict_ok d \<Longrightarrow> (k, s) \<in> set d \<Longrightarrow> map_of d k = Some s \<and> distinct s"
  unfolding dict_ok_def by auto

lemma dict_ok_setdefault_update: "dict_ok d \<Longrightarrow> dict_ok (setdefault_update d k vs)"
  unfolding setdefault_update_def
  by (rule dict_ok_update) (auto split: option.splits dest: dict_ok_lookup)

lemma dset_setdefault_update:
  "dset (setdefault_update d k vs) k' = (if k' = k then dset d k \<union> set vs else dset d k')"
  by (auto simp: dset_def setdefault_update_def update_conv' split: option.splits)

lemma keys_setdefault_update:
  "fst ` set (setdefault_update d k vs) = insert k (fst ` set d)"
  by (simp add: setdefault_update_def dom_update)

lemma collect_pairs:
  "dict_ok d \<Longrightarrow>
     dict_ok (foldl (\<lambda>d qa. setdefault_update d (fst qa) (snd qa)) d (map (\<lambda>q. (q, A)) Q))
   \<and> (\<forall>k. dset (foldl (\<lambda>d qa. setdefault_update d (fst qa) (snd qa)) d (map (\<lambda>q. (q, A)) Q)) k
          = (if k \<in> set Q then dset d k \<union> set A else dset d k))
   \<and> fst ` set (foldl (\<lambda>d qa. setdefault_update d (fst qa) (snd qa)) d (map (\<lambda>q. (q, A)) Q))
       = fst ` set d \<union> set Q"
proof (induction Q arbitrary: d)
  case Nil
  then show ?case by simp
next
  case (Cons q Q)
  let ?d1 = "setdefault_update d q A"
  from Cons.prems have ok1: "dict_ok ?d1" by (rule dict_ok_setdefault_update)
  note ih = Cons.IH[OF ok1]
  show ?case
    using ih by (auto simp: dset_setdefault_update keys_setdefault_update)
qed

subsection \<open>The dict of \<open>TrueOrFalse.build\<close>\<close>

lemma TrueOrFalse_collect_built:
  assumes "dict_ok d" and "q_to_a f = built_q_to_a f"
  shows "dict_ok (TrueOrFalse_collect d f)"
    and "dset (TrueOrFalse_collect d f) q
          = (if q \<in> set (questions f) then dset d q \<union> set (answers f) else dset d q)"
    and "fst ` set (TrueOrFalse_collect d f) = fst ` set d \<union> set (questions f)"
  using collect_pairs[OF assms(1), of "remdups (answers f)" "remdups (questions f)"] assms(2)
  by (simp_all add: TrueOrFalse_collect_def built_q_to_a_def)

lemma TrueOrFalse_dict:
  assumes "\<forall>f \<in> set fs. q_to_a f = built_q_to_a f"
  shows "dict_ok (foldl TrueOrFalse_collect [] fs)
    \<and> (\<forall>q. dset (foldl TrueOrFalse_collect [] fs) q = recorded_answers fs q)
    \<and> fst ` set (foldl TrueOrFalse_collect [] fs) = (\<Union>f \<in> set fs. set (questions f))"
  using assms
proof (induction fs rule: rev_induct)
  case Nil
  then show ?case by (simp add: dict_ok_Nil dset_def recorded_answers_def)
next
  case (snoc f fs)
  then have ih: "dict_ok (foldl TrueOrFalse_collect [] fs)"
    "\<And>q. dset (foldl TrueOrFalse_collect [] fs) q = recorded_answers fs q"
    "fst ` set (foldl TrueOrFalse_collect [] fs) = (\<Union>f \<in> set fs. set (questions f))"
    by simp_all
  from snoc.prems have b: "q_to_a f = built_q_to_a f" by simp
  note step = TrueOrFalse_collect_built[OF ih(1) b]
  have "\<And>q. dset (foldl TrueOrFalse_collect [] (fs @ [f])) q = recorded_answers (fs @ [f]) q"
    using step(2) ih(2) by (auto simp: recorded_answers_def)
  moreover have "fst ` set (foldl TrueOrFalse_collect [] (fs @ [f]))
      = (\<Union>f \<in> set (fs @ [f]). set (questions f))"
    using step(3) ih(3) by auto
  ultimately show ?case using step(1) by simp
qed

lemma TrueOrFalse_questions_first_bad:
  "length ans \<noteq> 1 \<Longrightarrow>
     TrueOrFalse_questions ((q, ans) # d) out g
       = (Some (RuntimeError ''Question is invalid!''), out, g)"
  by (cases ans; simp split: list.splits)

lemma tf_record_Cons: "tf_record d r \<Longrightarrow> tf_record (p # d) r"
  by (simp add: tf_record_def)

lemma TrueOrFalse_questions_step:
  "\<exists>smp g1. (smp = [''True'', ''False''] \<or> smp = [''False'', ''True''])
     \<and> TrueOrFalse_questions ((q, [rgt]) # d) out g
         = TrueOrFalse_questions d
             (out @ [\<lparr>kind = ''True or False'', question = q, choices = smp, answer = rgt\<rparr>]) g1"
proof -
  obtain smp g1 where s: "random_sample [''True'', ''False''] 2 g = Inr (smp, g1)"
    and perm: "smp = [''True'', ''False''] \<or> smp = [''False'', ''True'']"
    using sample_true_false[of "''True''" "''False''" g] by blast
  from s have "TrueOrFalse_questions ((q, [rgt]) # d) out g
         = TrueOrFalse_questions d
             (out @ [\<lparr>kind = ''True or False'', question = q, choices = smp, answer = rgt\<rparr>]) g1"
    by simp
  with perm show ?thesis by blast
qed

lemma TrueOrFalse_questions_result:
  "TrueOrFalse_questions d out g = (e, out', g') \<Longrightarrow>
     \<exists>b. out' = out @ b \<and> (\<forall>r \<in> set b. tf_record d r)
       \<and> (e = None \<longrightarrow> map question b = map fst d)"
proof (induction d arbitrary: out g)
  case Nil
  then show ?case by simp
next
  case (Cons p d)
  obtain q ans where p: "p = (q, ans)" by (cases p)
  show ?case
  proof (cases "length ans = 1")
    case False
    from TrueOrFalse_questions_first_bad[OF this, of q d out g] Cons.prems
    have "e \<noteq> None" "out' = out" by (auto simp add: p)
    then show ?thesis by simp
  next
    case True
    then obtain rgt where ans: "ans = [rgt]"
      by (cases ans) auto
    from TrueOrFalse_questions_step[of q rgt d out g] obtain smp g1
      where perm: "smp = [''True'', ''False''] \<or> smp = [''False'', ''True'']"
        and step: "TrueOrFalse_questions ((q, [rgt]) # d) out g
         = TrueOrFalse_questions d
             (out @ [\<lparr>kind = ''True or False'', question = q, choices = smp, answer = rgt\<rparr>]) g1"
      by blast
    define r0 where "r0 = \<lparr>kind = ''True or False'', question = q, choices = smp, answer = rgt\<rparr>"
    have r0: "tf_record (p # d) r0" "question r0 = q"
      using perm by (auto simp: r0_def tf_record_def p ans)
    from step Cons.prems have "TrueOrFalse_questions d (out @ [r0]) g1 = (e, out', g')"
      by (simp add: p ans r0_def)
    from Cons.IH[OF this] obtain b where b: "out' = (out @ [r0]) @ b"
      and rs: "\<forall>r \<in> set b. tf_record d r"
      and ok: "e = None \<longrightarrow> map question b = map fst d"
      by blast
    have 1: "out' = out @ (r0 # b)" using b by simp
    have 2: "\<forall>r \<in> set (r0 # b). tf_record (p # d) r"
      using rs r0(1) by (simp add: tf_record_Cons)
    have 3: "e = None \<longrightarrow> map question (r0 # b) = map fst (p # d)"
      using ok r0(2) by (simp add: p)
    show ?thesis
      by (rule exI[of _ "r0 # b"]) (use 1 2 3 in blast)
  qed
qed

lemma TrueOrFalse_questions_error:
  "fst (TrueOrFalse_questions d out g)
     = (if \<forall>p \<in> set d. length (snd p) = 1 then None
        else Some (RuntimeError ''Question is invalid!''))"
proof (induction d arbitrary: out g)
  case Nil
  then show ?case by simp
next
  case (Cons p d)
  obtain q ans where p: "p = (q, ans)" by (cases p)
  show ?case
  proof (cases "length ans = 1")
    case False
    from TrueOrFalse_questions_first_bad[OF this, of q d out g] False
    show ?thesis by (simp add: p)
  next
    case True
    then obtain rgt where ans: "ans = [rgt]"
      by (cases ans) auto
    from TrueOrFalse_questions_step[of q rgt d out g] obtain smp g1
      where step: "TrueOrFalse_questions ((q, [rgt]) # d) out g
         = TrueOrFalse_questions d
             (out @ [\<lparr>kind = ''True or False'', question = q, choices = smp, answer = rgt\<rparr>]) g1"
      by blast
    show ?thesis
      unfolding p ans step using Cons.IH by simp
  qed
qed

text \<open>The facts of a category after \<open>fact.build()\<close> and the dict \<open>questions\<close>.\<close>

lemma Fact_build_same:
  "questions (Fact_build f) = questions f" "answers (Fact_build f) = answers f"
  "fkind (Fact_build f) = fkind f"
  by (simp_all add: Fact_build_def Let_def)

lemma built_facts:
  assumes "\<forall>f \<in> set fs. fresh_or_built f"
  shows "\<forall>f \<in> set (map Fact_build fs). q_to_a f = built_q_to_a f \<and> a_to_q f = built_a_to_q f"
    and "recorded_answers (map Fact_build fs) = recorded_answers fs"
    and "(\<Union>f \<in> set (map Fact_build fs). set (questions f)) = (\<Union>f \<in> set fs. set (questions f))"
proof -
  show "\<forall>f \<in> set (map Fact_build fs). q_to_a f = built_q_to_a f \<and> a_to_q f = built_a_to_q f"
  proof
    fix f assume "f \<in> set (map Fact_build fs)"
    then obtain f0 where f0: "f0 \<in> set fs" "f = Fact_build f0" by auto
    with assms have fb: "fresh_or_built f0" by blast
    have "built_q_to_a (Fact_build f0) = built_q_to_a f0"
      "built_a_to_q (Fact_build f0) = built_a_to_q f0"
      by (simp_all add: built_q_to_a_def built_a_to_q_def Fact_build_same)
    with Fact_build_fields(1,2)[OF fb] f0(2)
    show "q_to_a f = built_q_to_a f \<and> a_to_q f = built_a_to_q f" by simp
  qed
  have "map answers (filter (\<lambda>f. q \<in> set (questions f)) (map Fact_build fs))
          = map answers (filter (\<lambda>f. q \<in> set (questions f)) fs)" for q
    by (induction fs) (simp_all add: Fact_build_same)
  then show "recorded_answers (map Fact_build fs) = recorded_answers fs"
    by (intro ext) (simp add: recorded_answers_def)
  show "(\<Union>f \<in> set (map Fact_build fs). set (questions f)) = (\<Union>f \<in> set fs. set (questions f))"
    by (simp add: Fact_build_same)
qed

lemma TrueOrFalse_build_dict:
  assumes "\<forall>f \<in> set (facts c). fresh_or_built f"
  shows "dict_ok (foldl TrueOrFalse_collect [] (map Fact_build (facts c)))"
    and "dset (foldl TrueOrFalse_collect [] (map Fact_build (facts c))) q
           = recorded_answers (facts c) q"
    and "fst ` set (foldl TrueOrFalse_collect [] (map Fact_build (facts c)))
           = (\<Union>f \<in> set (facts c). set (questions f))"
proof -
  note bf = built_facts[OF assms(1)]
  have "\<forall>f \<in> set (map Fact_build (facts c)). q_to_a f = built_q_to_a f"
  proof
    fix f assume "f \<in> set (map Fact_build (facts c))"
    from bspec[OF bf(1) this] show "q_to_a f = built_q_to_a f" by (rule conjunct1)
  qed
  note t = TrueOrFalse_dict[OF this]
  from t show "dict_ok (foldl TrueOrFalse_collect [] (map Fact_build (facts c)))"
    by (rule conjunct1)
  from t have "\<forall>q. dset (foldl TrueOrFalse_collect [] (map Fact_build (facts c))) q
      = recorded_answers (map Fact_build (facts c)) q"
    by (rule conjunct1[OF conjunct2])
  then show "dset (foldl TrueOrFalse_collect [] (map Fact_build (facts c))) q
           = recorded_answers (facts c) q"
    unfolding bf(2) by (rule spec)
  from t have "fst ` set (foldl TrueOrFalse_collect [] (map Fact_build (facts c)))
      = (\<Union>f \<in> set (map Fact_build (facts c)). set (questions f))"
    by (rule conjunct2[OF conjunct2])
  then show "fst ` set (foldl TrueOrFalse_collect [] (map Fact_build (facts c)))
           = (\<Union>f \<in> set (facts c). set (questions f))"
    unfolding bf(3) .
qed

text \<open>
  Claim C5. Every Record that \<open>TrueOrFalse.build\<close> appends for a category made by
  the constructor (whether the build then succeeds or a later question makes it raise)
  has as choices \<open>True\<close> and \<open>False\<close> in one of the two orders, exactly one of the
  two choices equals the stored correct answer, and that answer is the one and only
  answer value recorded for the question over all facts of the category.
\<close>

theorem C5_true_or_false_records:
  assumes "get_category n = Inr c" and "cls c = TrueOrFalse" and "build c g = (e, c', g')"
  shows "\<forall>r \<in> set (q_and_a c').
           (choices r = [''True'', ''False''] \<or> choices r = [''False'', ''True''])
         \<and> count_list (choices r) (answer r) = 1
         \<and> recorded_answers (facts c) (question r) = {answer r}"
proof
  fix r assume r: "r \<in> set (q_and_a c')"
  let ?d = "foldl TrueOrFalse_collect [] (map Fact_build (facts c))"
  have fresh: "\<forall>f \<in> set (facts c). fresh_or_built f"
    using get_category_fresh[OF assms(1)] by blast
  note d = TrueOrFalse_build_dict[OF fresh]
  have empty: "q_and_a c = []" using get_category_Inr(1)[OF assms(1)] .
  have b: "build c g = (case TrueOrFalse_questions ?d [] g of
             (e, out, g1) \<Rightarrow> (e, c\<lparr>facts := map Fact_build (facts c), q_and_a := out\<rparr>, g1))"
    using assms(2) empty by (simp add: build_def TrueOrFalse_build_def Let_def)
  obtain e1 out g1 where run: "TrueOrFalse_questions ?d [] g = (e1, out, g1)"
    by (cases "TrueOrFalse_questions ?d [] g")
  with b assms(3) have c': "q_and_a c' = out" by auto
  from TrueOrFalse_questions_result[OF run] c' r have "tf_record ?d r" by auto
  then have mem: "(question r, [answer r]) \<in> set ?d"
    and perm: "choices r = [''True'', ''False''] \<or> choices r = [''False'', ''True'']"
    by (simp_all add: tf_record_def)
  from dict_ok_member[OF d(1) mem] have "dset ?d (question r) = {answer r}"
    by (simp add: dset_def)
  with d(2)[of "question r"] have rec: "recorded_answers (facts c) (question r) = {answer r}"
    by simp
  then have "answer r \<in> set (concat (map answers (filter (\<lambda>f. question r \<in> set (questions f)) (facts c))))"
    by (simp add: recorded_answers_def)
  then obtain f where f: "f \<in> set (facts c)" "answer r \<in> set (answers f)"
    by auto
  from bspec[OF get_category_Inr(3)[OF assms(1)] f(1)] assms(2) f(2)
  have tf: "answer r = ''True'' \<or> answer r = ''False''" by auto
  have "count_list (choices r) (answer r) = 1"
    using perm tf by (elim disjE) simp_all
  with perm rec
  show "(choices r = [''True'', ''False''] \<or> choices r = [''False'', ''True''])
         \<and> count_list (choices r) (answer r) = 1
         \<and> recorded_answers (facts c) (question r) = {answer r}" by simp
qed

text \<open>
  Claim C6. When a question of a true/false category has two different answer values
  among the facts, \<open>build\<close> raises \<open>RuntimeError('Question is invalid!')\<close>; when
  that question is the only question text of the category, it does so before any Record
  is appended and before any random number is drawn.
\<close>

theorem C6_ambiguous_true_or_false:
  assumes "get_category n = Inr c" and "cls c = TrueOrFalse"
    and "f1 \<in> set (facts c)" and "f2 \<in> set (facts c)"
    and "q \<in> set (questions f1)" and "q \<in> set (questions f2)"
    and "a1 \<in> set (answers f1)" and "a2 \<in> set (answers f2)" and "a1 \<noteq> a2"
  shows "fst (build c g) = Some (RuntimeError ''Question is invalid!'')
     \<and> ((\<forall>f \<in> set (facts c). set (questions f) \<subseteq> {q}) \<longrightarrow>
           q_and_a (fst (snd (build c g))) = [] \<and> snd (snd (build c g)) = g)"
proof -
  let ?d = "foldl TrueOrFalse_collect [] (map Fact_build (facts c))"
  have fresh: "\<forall>f \<in> set (facts c). fresh_or_built f"
    using get_category_fresh[OF assms(1)] by blast
  note d = TrueOrFalse_build_dict[OF fresh]
  have empty: "q_and_a c = []" using get_category_Inr(1)[OF assms(1)] .
  have b: "build c g = (case TrueOrFalse_questions ?d [] g of
             (e, out, g1) \<Rightarrow> (e, c\<lparr>facts := map Fact_build (facts c), q_and_a := out\<rparr>, g1))"
    using assms(2) empty by (simp add: build_def TrueOrFalse_build_def Let_def)
  have both: "a1 \<in> recorded_answers (facts c) q" "a2 \<in> recorded_answers (facts c) q"
    using assms(3-8) by (auto simp: recorded_answers_def)
  then have "a1 \<in> dset ?d q" "a2 \<in> dset ?d q" using d(2)[of q] by simp_all
  then obtain ans where look: "map_of ?d q = Some ans" and in_ans: "a1 \<in> set ans" "a2 \<in> set ans"
    by (auto simp: dset_def split: option.splits)
  from in_ans assms(9) have long: "length ans \<noteq> 1"
    by (cases ans) auto
  from look have mem: "(q, ans) \<in> set ?d" by (rule map_of_SomeD)
  with long have "\<not> (\<forall>p \<in> set ?d. length (snd p) = 1)" by force
  with TrueOrFalse_questions_error[of ?d "[]" g]
  have err: "fst (TrueOrFalse_questions ?d [] g) = Some (RuntimeError ''Question is invalid!'')"
    by simp
  have first: "fst (build c g) = Some (RuntimeError ''Question is invalid!'')"
    unfolding b using err by (cases "TrueOrFalse_questions ?d [] g") simp
  have "q_and_a (fst (snd (build c g))) = [] \<and> snd (snd (build c g)) = g"
    if only: "\<forall>f \<in> set (facts c). set (questions f) \<subseteq> {q}"
  proof -
    from d(3) only have keys: "fst ` set ?d \<subseteq> {q}" by auto
    from mem obtain p rest where pr: "?d = p # rest" by (cases ?d) auto
    from d(1) have dist: "distinct (map fst ?d)" by (simp add: dict_ok_def)
    from keys pr have fp: "fst p = q" by auto
    have "rest = []"
    proof (cases rest)
      case Nil
      then show ?thesis .
    next
      case (Cons p' rest')
      with keys pr have "fst p' = q" by auto
      with fp dist pr Cons show ?thesis by simp
    qed
    with fp mem pr have "?d = [(q, ans)]" by (cases p) auto
    with TrueOrFalse_questions_first_bad[OF long, of q "[]" "[]" g]
    have "TrueOrFalse_questions ?d [] g = (Some (RuntimeError ''Question is invalid!''), [], g)"
      by simp
    then show ?thesis unfolding b by simp
  qed
  with first show ?thesis by blast
qed

lemmas build_eval =
  build_def TrueOrFalse_build_def MCM_build_def Fact_build_def dict_update_const_def
  TrueOrFalse_collect_def MCM_collect_def kinds_add_question_def kinds_add_answer_def
  kinds_setdefault_def setdefault_update_def List.union_def List.insert_def
  random_sample_def random_choice_def random_shuffle_def Let_def
  get_category_def CATEGORY_def Category_init_def Fact_init_def Answer_init_def
  eval_nat_numeral

theorem C5_true_or_false_records_witness:
  "q_and_a (fst (snd (build
       \<lparr>cls = TrueOrFalse,
        facts = [\<lparr>fkind = None, questions = [''Sky is blue''], answers = [''True''],
                  q_to_a = [], a_to_q = []\<rparr>],
        q_and_a = []\<rparr> [1])))
   = [\<lparr>kind = ''True or False'', question = ''Sky is blue'',
       choices = [''False'', ''True''], answer = ''True''\<rparr>]
   \<and> recorded_answers
        [\<lparr>fkind = None, questions = [''Sky is blue''], answers = [''True''],
          q_to_a = [], a_to_q = []\<rparr>] ''Sky is blue'' = {''True''}"
proof -
  let ?n = "Node testbank_Category (Some ''true_or_false'') [] [
              Node testbank_Fact None [] [
                Node testbank_Question None ''Sky is blue'' [],
                Node testbank_Answer None ''True'' []]]"
  let ?c = "\<lparr>cls = TrueOrFalse,
        facts = [\<lparr>fkind = None, questions = [''Sky is blue''], answers = [''True''],
                  q_to_a = [], a_to_q = []\<rparr>],
        q_and_a = []\<rparr>"
  have made: "get_category ?n = Inr ?c"
    by (simp add: build_eval)
  have kind: "cls ?c = TrueOrFalse"
    by simp
  have run: "build ?c [1] = (fst (build ?c [1]), fst (snd (build ?c [1])), snd (snd (build ?c [1])))"
    by simp
  have out: "q_and_a (fst (snd (build ?c [1])))
      = [\<lparr>kind = ''True or False'', question = ''Sky is blue'',
          choices = [''False'', ''True''], answer = ''True''\<rparr>]"
    by (simp add: build_eval)
  from C5_true_or_false_records [OF made kind run] show ?thesis
    unfolding out by simp
qed

theorem C6_ambiguous_true_or_false_witness:
  "build \<lparr>cls = TrueOrFalse,
        facts = [\<lparr>fkind = None, questions = [''Sky is blue''], answers = [''True''],
                  q_to_a = [], a_to_q = []\<rparr>,
                 \<lparr>fkind = None, questions = [''Sky is blue''], answers = [''False''],
                  q_to_a = [], a_to_q = []\<rparr>],
        q_and_a = []\<rparr> [1, 0]
   = (Some (RuntimeError ''Question is invalid!''),
      \<lparr>cls = TrueOrFalse,
        facts = [\<lparr>fkind = None, questions = [''Sky is blue''], answers = [''True''],
                  q_to_a = [(''Sky is blue'', [''True''])],
                  a_to_q = [(''True'', [''Sky is blue''])]\<rparr>,
                 \<lparr>fkind = None, questions = [''Sky is blue''], answers = [''False''],
                  q_to_a = [(''Sky is blue'', [''False''])],
                  a_to_q = [(''False'', [''Sky is blue''])]\<rparr>],
        q_and_a = []\<rparr>, [1, 0])"
proof -
  let ?n = "Node testbank_Category (Some ''true_or_false'') [] [
              Node testbank_Fact None [] [
                Node testbank_Question None ''Sky is blue'' [],
                Node testbank_Answer None ''True'' []],
              Node testbank_Fact None [] [
                Node testbank_Question None ''Sky is blue'' [],
                Node testbank_Answer None ''False'' []]]"
  let ?f1 = "\<lparr>fkind = None, questions = [''Sky is blue''], answers = [''True''],
                  q_to_a = [], a_to_q = []\<rparr>"
  let ?f2 = "\<lparr>fkind = None, questions = [''Sky is blue''], answers = [''False''],
                  q_to_a = [], a_to_q = []\<rparr>"
  let ?c = "\<lparr>cls = TrueOrFalse, facts = [?f1, ?f2], q_and_a = []\<rparr>"
  have made: "get_category ?n = Inr ?c"
    by (simp add: build_eval)
  have kind: "cls ?c = TrueOrFalse" by simp
  have h: "?f1 \<in> set (facts ?c)" "?f2 \<in> set (facts ?c)"
    "''Sky is blue'' \<in> set (questions ?f1)" "''Sky is blue'' \<in> set (questions ?f2)"
    "''True'' \<in> set (answers ?f1)" "''False'' \<in> set (answers ?f2)" "''True'' \<noteq> ''False''"
    by simp_all
  have only: "\<forall>f \<in> set (facts ?c). set (questions f) \<subseteq> {''Sky is blue''}"
    by simp
  note t = C6_ambiguous_true_or_false [OF made kind h, of "[1, 0]"]
  from conjunct1 [OF t] mp [OF conjunct2 [OF t] only]
  have "fst (build ?c [1, 0]) = Some (RuntimeError ''Question is invalid!'')"
    "q_and_a (fst (snd (build ?c [1, 0]))) = []" "snd (snd (build ?c [1, 0])) = [1, 0]"
    by simp_all
  moreover have "facts (fst (snd (build ?c [1, 0]))) = map Fact_build (facts ?c)"
    "cls (fst (snd (build ?c [1, 0]))) = TrueOrFalse"
    by (simp_all add: build_def TrueOrFalse_build_def Let_def split: prod.splits)
  moreover have "map Fact_build (facts ?c) = [\<lparr>fkind = None, questions = [''Sky is blue''], answers = [''True''],
                  q_to_a = [(''Sky is blue'', [''True''])],
                  a_to_q = [(''True'', [''Sky is blue''])]\<rparr>,
                 \<lparr>fkind = None, questions = [''Sky is blue''], answers = [''False''],
                  q_to_a = [(''Sky is blue'', [''False''])],
                  a_to_q = [(''False'', [''Sky is blue''])]\<rparr>]"
    by (simp add: Fact_build_def dict_update_const_def Let_def)
  ultimately show ?thesis
    by (cases "build ?c [1, 0]"; cases "fst (snd (build ?c [1, 0]))") simp
qed

subsection \<open>The dict \<open>kinds\<close> of \<open>_MCM.build\<close>\<close>

lemma kinds_ok_Nil: "kinds_ok []"
  by (simp add: kinds_ok_def)

lemma group_of_ok:
  assumes "kinds_ok ks"
  shows "dict_ok (fst (group_of ks k))" and "dict_ok (snd (group_of ks k))"
proof -
  show "dict_ok (fst (group_of ks k))"
  proof (cases "map_of ks k")
    case None
    then show ?thesis by (simp add: group_of_def dict_ok_Nil)
  next
    case (Some grp)
    then have "(k, grp) \<in> set ks" by (rule map_of_SomeD)
    with assms have "dict_ok (fst grp)" by (force simp: kinds_ok_def)
    with Some show ?thesis by (simp add: group_of_def)
  qed
  show "dict_ok (snd (group_of ks k))"
  proof (cases "map_of ks k")
    case None
    then show ?thesis by (simp add: group_of_def dict_ok_Nil)
  next
    case (Some grp)
    then have "(k, grp) \<in> set ks" by (rule map_of_SomeD)
    with assms have "dict_ok (snd grp)" by (force simp: kinds_ok_def)
    with Some show ?thesis by (simp add: group_of_def)
  qed
qed

lemma group_of_member:
  "kinds_ok ks \<Longrightarrow> (k, grp) \<in> set ks \<Longrightarrow> group_of ks k = grp"
  by (simp add: kinds_ok_def group_of_def)

text \<open>Storing a group under a key, after \<open>setdefault\<close> made sure the key is there.\<close>

lemma kinds_store:
  assumes "kinds_setdefault ks k = (grp, ks1)"
  shows "grp = group_of ks k"
    and "map_of (AList.update k v ks1) = (map_of ks)(k \<mapsto> v)"
    and "distinct (map fst ks) \<Longrightarrow> distinct (map fst (AList.update k v ks1))"
    and "set (AList.update k v ks1) \<subseteq> insert (k, v) (set ks)"
proof -
  show "grp = group_of ks k"
    using assms by (auto simp: kinds_setdefault_def group_of_def split: option.splits)
  show "map_of (AList.update k v ks1) = (map_of ks)(k \<mapsto> v)"
  proof (cases "map_of ks k")
    case None
    with assms have "ks1 = ks @ [(k, ([], []))]" by (auto simp add: kinds_setdefault_def)
    then show ?thesis by (auto simp: update_conv' map_add_def fun_eq_iff split: option.splits)
  next
    case (Some a)
    with assms have "ks1 = ks" by (simp add: kinds_setdefault_def)
    then show ?thesis by (simp add: update_conv')
  qed
  show "distinct (map fst (AList.update k v ks1))" if d: "distinct (map fst ks)"
  proof (cases "map_of ks k")
    case None
    with assms have k1: "ks1 = ks @ [(k, ([], []))]" by (auto simp add: kinds_setdefault_def)
    from None have "k \<notin> fst ` set ks" by (simp add: map_of_eq_None_iff)
    with d k1 have "distinct (map fst ks1)" by simp
    then show ?thesis by (rule distinct_update)
  next
    case (Some a)
    with assms have "ks1 = ks" by (simp add: kinds_setdefault_def)
    with d show ?thesis by (simp add: distinct_update)
  qed
  show "set (AList.update k v ks1) \<subseteq> insert (k, v) (set ks)"
  proof (cases "map_of ks k")
    case None
    with assms have k1: "ks1 = ks @ [(k, ([], []))]" by (auto simp add: kinds_setdefault_def)
    have "AList.update k v (ks @ [(k, ([], []))]) = ks @ [(k, v)]"
      using None by (induction ks) (auto split: if_splits)
    with k1 show ?thesis by auto
  next
    case (Some a)
    with assms have "ks1 = ks" by (simp add: kinds_setdefault_def)
    then show ?thesis using set_update_subset[of k v ks] by simp
  qed
qed

lemma kinds_add_question_props:
  assumes "kinds_ok ks"
  shows "kinds_ok (kinds_add_question k ks (q, A))"
    and "group_of (kinds_add_question k ks (q, A)) k'
          = (if k' = k then (setdefault_update (fst (group_of ks k)) q A, snd (group_of ks k))
             else group_of ks k')"
proof -
  obtain grp ks1 where sd: "kinds_setdefault ks k = (grp, ks1)"
    by (cases "kinds_setdefault ks k")
  let ?v = "(setdefault_update (fst (group_of ks k)) q A, snd (group_of ks k))"
  note st = kinds_store(1)[OF sd] kinds_store(2-4)[OF sd, of ?v]
  have eq: "kinds_add_question k ks (q, A) = AList.update k ?v ks1"
    using sd st(1) by (simp add: kinds_add_question_def split: prod.splits)
  have okv: "dict_ok (fst ?v)" "dict_ok (snd ?v)"
    using group_of_ok[OF assms, of k] by (simp_all add: dict_ok_setdefault_update)
  show "kinds_ok (kinds_add_question k ks (q, A))"
    unfolding eq kinds_ok_def
  proof (intro conjI ballI)
    show "distinct (map fst (AList.update k ?v ks1))"
      using st(3) assms by (simp add: kinds_ok_def)
  next
    fix p assume "p \<in> set (AList.update k ?v ks1)"
    with st(4) have "p = (k, ?v) \<or> p \<in> set ks" by auto
    then show "dict_ok (fst (snd p))"
      using okv(1) assms by (auto simp: kinds_ok_def)
  next
    fix p assume "p \<in> set (AList.update k ?v ks1)"
    with st(4) have "p = (k, ?v) \<or> p \<in> set ks" by auto
    then show "dict_ok (snd (snd p))"
      using okv(2) assms by (auto simp: kinds_ok_def)
  qed
  have "map_of (kinds_add_question k ks (q, A)) = (map_of ks)(k \<mapsto> ?v)"
    using eq st(2) by simp
  then show "group_of (kinds_add_question k ks (q, A)) k'
          = (if k' = k then ?v else group_of ks k')"
    by (simp add: group_of_def)
qed

lemma kinds_add_answer_props:
  assumes "kinds_ok ks"
  shows "kinds_ok (kinds_add_answer k ks (a, Q))"
    and "group_of (kinds_add_answer k ks (a, Q)) k'
          = (if k' = k then (fst (group_of ks k), setdefault_update (snd (group_of ks k)) a Q)
             else group_of ks k')"
proof -
  obtain grp ks1 where sd: "kinds_setdefault ks k = (grp, ks1)"
    by (cases "kinds_setdefault ks k")
  let ?v = "(fst (group_of ks k), setdefault_update (snd (group_of ks k)) a Q)"
  note st = kinds_store(1)[OF sd] kinds_store(2-4)[OF sd, of ?v]
  have eq: "kinds_add_answer k ks (a, Q) = AList.update k ?v ks1"
    using sd st(1) by (simp add: kinds_add_answer_def split: prod.splits)
  have okv: "dict_ok (fst ?v)" "dict_ok (snd ?v)"
    using group_of_ok[OF assms, of k] by (simp_all add: dict_ok_setdefault_update)
  show "kinds_ok (kinds_add_answer k ks (a, Q))"
    unfolding eq kinds_ok_def
  proof (intro conjI ballI)
    show "distinct (map fst (AList.update k ?v ks1))"
      using st(3) assms by (simp add: kinds_ok_def)
  next
    fix p assume "p \<in> set (AList.update k ?v ks1)"
    with st(4) have "p = (k, ?v) \<or> p \<in> set ks" by auto
    then show "dict_ok (fst (snd p))"
      using okv(1) assms by (auto simp: kinds_ok_def)
  next
    fix p assume "p \<in> set (AList.update k ?v ks1)"
    with st(4) have "p = (k, ?v) \<or> p \<in> set ks" by auto
    then show "dict_ok (snd (snd p))"
      using okv(2) assms by (auto simp: kinds_ok_def)
  qed
  have "map_of (kinds_add_answer k ks (a, Q)) = (map_of ks)(k \<mapsto> ?v)"
    using eq st(2) by simp
  then show "group_of (kinds_add_answer k ks (a, Q)) k'
          = (if k' = k then ?v else group_of ks k')"
    by (simp add: group_of_def)
qed

lemma add_question_abs:
  assumes "kinds_ok ks"
  shows "kinds_ok (kinds_add_question k ks (q, A))"
    and "gq (kinds_add_question k ks (q, A)) k' q'
           = (if k' = k \<and> q' = q then gq ks k q \<union> set A else gq ks k' q')"
    and "gkeys (kinds_add_question k ks (q, A)) k'
           = (if k' = k then insert q (gkeys ks k) else gkeys ks k')"
    and "ga (kinds_add_question k ks (q, A)) k' = ga ks k'"
  using kinds_add_question_props[OF assms, of k q A]
  by (simp_all add: gq_def gkeys_def ga_def dset_setdefault_update keys_setdefault_update)

lemma add_answer_abs:
  assumes "kinds_ok ks"
  shows "kinds_ok (kinds_add_answer k ks (a, Q))"
    and "gq (kinds_add_answer k ks (a, Q)) k' q' = gq ks k' q'"
    and "gkeys (kinds_add_answer k ks (a, Q)) k' = gkeys ks k'"
    and "ga (kinds_add_answer k ks (a, Q)) k'
           = (if k' = k then insert a (ga ks k) else ga ks k')"
  using kinds_add_answer_props[OF assms, of k a Q]
  by (simp_all add: gq_def gkeys_def ga_def keys_setdefault_update)

lemma add_questions_abs:
  "kinds_ok ks \<Longrightarrow>
     kinds_ok (foldl (kinds_add_question k) ks (map (\<lambda>q. (q, A)) Q))
   \<and> (\<forall>k' q'. gq (foldl (kinds_add_question k) ks (map (\<lambda>q. (q, A)) Q)) k' q'
          = (if k' = k \<and> q' \<in> set Q then gq ks k' q' \<union> set A else gq ks k' q'))
   \<and> (\<forall>k'. gkeys (foldl (kinds_add_question k) ks (map (\<lambda>q. (q, A)) Q)) k'
          = (if k' = k then gkeys ks k' \<union> set Q else gkeys ks k'))
   \<and> (\<forall>k'. ga (foldl (kinds_add_question k) ks (map (\<lambda>q. (q, A)) Q)) k' = ga ks k')"
proof (induction Q arbitrary: ks)
  case Nil
  then show ?case by simp
next
  case (Cons q Q)
  note step = add_question_abs[OF Cons.prems, of k q A]
  note ih = Cons.IH[OF step(1)]
  show ?case
    using ih by (auto simp: step(2,3,4))
qed

lemma add_answers_abs:
  "kinds_ok ks \<Longrightarrow>
     kinds_ok (foldl (kinds_add_answer k) ks (map (\<lambda>a. (a, Q)) A))
   \<and> (\<forall>k' q'. gq (foldl (kinds_add_answer k) ks (map (\<lambda>a. (a, Q)) A)) k' q' = gq ks k' q')
   \<and> (\<forall>k'. gkeys (foldl (kinds_add_answer k) ks (map (\<lambda>a. (a, Q)) A)) k' = gkeys ks k')
   \<and> (\<forall>k'. ga (foldl (kinds_add_answer k) ks (map (\<lambda>a. (a, Q)) A)) k'
          = (if k' = k then ga ks k' \<union> set A else ga ks k'))"
proof (induction A arbitrary: ks)
  case Nil
  then show ?case by simp
next
  case (Cons a A)
  note step = add_answer_abs[OF Cons.prems, of k a Q]
  note ih = Cons.IH[OF step(1)]
  show ?case
    using ih by (auto simp: step(2,3,4))
qed

lemma MCM_collect_abs:
  assumes "kinds_ok ks" and "q_to_a f = built_q_to_a f" and "a_to_q f = built_a_to_q f"
  shows "kinds_ok (MCM_collect ks f)"
    and "gq (MCM_collect ks f) k q
          = (if k = fkind f \<and> q \<in> set (questions f) then gq ks k q \<union> set (answers f)
             else gq ks k q)"
    and "gkeys (MCM_collect ks f) k
          = (if k = fkind f then gkeys ks k \<union> set (questions f) else gkeys ks k)"
    and "ga (MCM_collect ks f) k
          = (if k = fkind f then ga ks k \<union> set (answers f) else ga ks k)"
proof -
  let ?k1 = "foldl (kinds_add_question (fkind f)) ks
               (map (\<lambda>q. (q, remdups (answers f))) (remdups (questions f)))"
  note a = add_questions_abs[OF assms(1), of "fkind f" "remdups (answers f)" "remdups (questions f)"]
  from a have ok1: "kinds_ok ?k1" by (rule conjunct1)
  note b = add_answers_abs[OF ok1, of "fkind f" "remdups (questions f)" "remdups (answers f)"]
  have eq: "MCM_collect ks f
      = foldl (kinds_add_answer (fkind f)) ?k1
          (map (\<lambda>a. (a, remdups (questions f))) (remdups (answers f)))"
    by (simp add: MCM_collect_def assms(2,3) built_q_to_a_def built_a_to_q_def)
  show "kinds_ok (MCM_collect ks f)"
    unfolding eq using b by (rule conjunct1)
  show "gq (MCM_collect ks f) k q
          = (if k = fkind f \<and> q \<in> set (questions f) then gq ks k q \<union> set (answers f)
             else gq ks k q)"
    unfolding eq using a b by simp
  show "gkeys (MCM_collect ks f) k
          = (if k = fkind f then gkeys ks k \<union> set (questions f) else gkeys ks k)"
    unfolding eq using a b by simp
  show "ga (MCM_collect ks f) k
          = (if k = fkind f then ga ks k \<union> set (answers f) else ga ks k)"
    unfolding eq using a b by simp
qed

lemma MCM_kinds_abs:
  assumes "\<forall>f \<in> set fs. q_to_a f = built_q_to_a f \<and> a_to_q f = built_a_to_q f"
  shows "kinds_ok (foldl MCM_collect [] fs)
    \<and> (\<forall>k q. gq (foldl MCM_collect [] fs) k q = correct_answers fs k q)
    \<and> (\<forall>k. gkeys (foldl MCM_collect [] fs) k = kind_questions fs k)
    \<and> (\<forall>k. ga (foldl MCM_collect [] fs) k = kind_answers fs k)"
  using assms
proof (induction fs rule: rev_induct)
  case Nil
  show ?case
    by (simp add: kinds_ok_Nil gq_def gkeys_def ga_def group_of_def dset_def
        correct_answers_def kind_questions_def kind_answers_def)
next
  case (snoc f fs)
  let ?ks = "foldl MCM_collect [] fs"
  from snoc have ih: "kinds_ok ?ks"
    "\<And>k q. gq ?ks k q = correct_answers fs k q"
    "\<And>k. gkeys ?ks k = kind_questions fs k"
    "\<And>k. ga ?ks k = kind_answers fs k"
    by simp_all
  from snoc.prems have b: "q_to_a f = built_q_to_a f" "a_to_q f = built_a_to_q f"
    by simp_all
  note step = MCM_collect_abs[OF ih(1) b]
  have 1: "kinds_ok (foldl MCM_collect [] (fs @ [f]))"
    using step(1) by simp
  have 2: "gq (foldl MCM_collect [] (fs @ [f])) k q = correct_answers (fs @ [f]) k q" for k q
    using step(2)[of k q] ih(2)[of k q] by (auto simp: correct_answers_def)
  have 3: "gkeys (foldl MCM_collect [] (fs @ [f])) k = kind_questions (fs @ [f]) k" for k
    using step(3)[of k] ih(3)[of k] by (auto simp: kind_questions_def)
  have 4: "ga (foldl MCM_collect [] (fs @ [f])) k = kind_answers (fs @ [f]) k" for k
    using step(4)[of k] ih(4)[of k] by (auto simp: kind_answers_def)
  from 1 2 3 4 show ?case by blast
qed

lemma mcm_record_Cons: "mcm_record c al qd r \<Longrightarrow> mcm_record c al (p # qd) r"
  unfolding mcm_record_def by auto

lemma MCM_questions_step:
  assumes "correct \<noteq> []"
  shows "\<exists>r0 g3. MCM_questions c al ((q, correct) # rest) out g
                  = MCM_questions c al rest (out @ [r0]) g3
           \<and> question r0 = q \<and> mcm_record c al ((q, correct) # rest) r0"
proof -
  let ?wrong = "filter (\<lambda>a. a \<notin> set correct) al"
  let ?k = "min (length ?wrong) (CHOICES c)"
  have "?k \<le> length ?wrong" by simp
  from random_sample_ok[OF this, of g] obtain smp g1
    where s: "random_sample ?wrong ?k g = Inr (smp, g1)"
      and sub: "mset smp \<subseteq># mset ?wrong" and len: "length smp = ?k"
    by blast
  from random_choice_ok[OF assms, of g1] obtain rgt g2
    where ch: "random_choice correct g1 = Inr (rgt, g2)" and rgt: "rgt \<in> set correct"
    by blast
  obtain shuffled g3 where sh: "random_shuffle (smp @ [rgt]) g2 = (shuffled, g3)"
    by (cases "random_shuffle (smp @ [rgt]) g2")
  with random_shuffle_mset[of "smp @ [rgt]" g2]
  have perm: "mset shuffled = add_mset rgt (mset smp)" by simp
  define r0 where "r0 = \<lparr>kind = NAME c, question = q, choices = shuffled, answer = rgt\<rparr>"
  have run: "MCM_questions c al ((q, correct) # rest) out g
               = MCM_questions c al rest (out @ [r0]) g3"
    using s ch sh by (simp add: r0_def Let_def)
  have "mcm_record c al ((q, correct) # rest) r0"
    unfolding mcm_record_def
    by (rule exI[of _ correct], rule exI[of _ smp]) (use rgt perm sub len in \<open>simp add: r0_def\<close>)
  moreover have "question r0 = q" by (simp add: r0_def)
  ultimately show ?thesis using run by blast
qed

lemma MCM_questions_result:
  assumes "\<forall>p \<in> set qd. snd p \<noteq> []"
  shows "\<exists>b g'. MCM_questions c al qd out g = (None, out @ b, g')
           \<and> map question b = map fst qd \<and> (\<forall>r \<in> set b. mcm_record c al qd r)"
  using assms
proof (induction qd arbitrary: out g)
  case Nil
  then show ?case by simp
next
  case (Cons p qd)
  obtain q correct where p: "p = (q, correct)" by (cases p)
  with Cons.prems have ne: "correct \<noteq> []" by simp
  from MCM_questions_step[OF ne, of c al q qd out g] obtain r0 g3
    where run: "MCM_questions c al (p # qd) out g = MCM_questions c al qd (out @ [r0]) g3"
      and r0: "question r0 = q" "mcm_record c al (p # qd) r0"
    unfolding p by blast
  from Cons.prems have "\<forall>p \<in> set qd. snd p \<noteq> []" by simp
  from Cons.IH[OF this, of "out @ [r0]" g3] obtain b g'
    where ih: "MCM_questions c al qd (out @ [r0]) g3 = (None, (out @ [r0]) @ b, g')"
      "map question b = map fst qd" "\<forall>r \<in> set b. mcm_record c al qd r"
    by blast
  have 1: "MCM_questions c al (p # qd) out g = (None, out @ (r0 # b), g')"
    using run ih(1) by simp
  have 2: "map question (r0 # b) = map fst (p # qd)"
    using ih(2) r0(1) by (simp add: p)
  have 3: "\<forall>r \<in> set (r0 # b). mcm_record c al (p # qd) r"
    using ih(3) r0(2) by (simp add: mcm_record_Cons)
  from 1 2 3 show ?case by blast
qed

lemma MCM_kinds_result:
  assumes "\<forall>p \<in> set ks. \<forall>p' \<in> set (fst (snd p)). snd p' \<noteq> []"
  shows "\<exists>b g'. MCM_kinds c ks out g = (None, out @ b, g')
           \<and> map question b = concat (map (\<lambda>p. map fst (fst (snd p))) ks)
           \<and> (\<forall>r \<in> set b. \<exists>p \<in> set ks. mcm_record c (map fst (snd (snd p))) (fst (snd p)) r)"
  using assms
proof (induction ks arbitrary: out g)
  case Nil
  then show ?case by simp
next
  case (Cons p ks)
  obtain k qd ad where p: "p = (k, (qd, ad))" by (cases p) auto
  with Cons.prems have "\<forall>p' \<in> set qd. snd p' \<noteq> []" by simp
  from MCM_questions_result[OF this, of c "map fst ad" out g] obtain b1 g1
    where q1: "MCM_questions c (map fst ad) qd out g = (None, out @ b1, g1)"
      "map question b1 = map fst qd" "\<forall>r \<in> set b1. mcm_record c (map fst ad) qd r"
    by blast
  from Cons.prems have "\<forall>p \<in> set ks. \<forall>p' \<in> set (fst (snd p)). snd p' \<noteq> []" by simp
  from Cons.IH[OF this, of "out @ b1" g1] obtain b2 g2
    where q2: "MCM_kinds c ks (out @ b1) g1 = (None, (out @ b1) @ b2, g2)"
      "map question b2 = concat (map (\<lambda>p. map fst (fst (snd p))) ks)"
      "\<forall>r \<in> set b2. \<exists>p \<in> set ks. mcm_record c (map fst (snd (snd p))) (fst (snd p)) r"
    by blast
  have 1: "MCM_kinds c (p # ks) out g = (None, out @ (b1 @ b2), g2)"
    using q1(1) q2(1) by (simp add: p)
  have 2: "map question (b1 @ b2) = concat (map (\<lambda>p. map fst (fst (snd p))) (p # ks))"
    using q1(2) q2(2) by (simp add: p)
  have 3: "\<forall>r \<in> set (b1 @ b2). \<exists>p \<in> set (p # ks).
             mcm_record c (map fst (snd (snd p))) (fst (snd p)) r"
  proof
    fix r assume "r \<in> set (b1 @ b2)"
    then consider "r \<in> set b1" | "r \<in> set b2" by auto
    then show "\<exists>p \<in> set (p # ks). mcm_record c (map fst (snd (snd p))) (fst (snd p)) r"
    proof cases
      case 1
      with q1(3) have "mcm_record c (map fst (snd (snd p))) (fst (snd p)) r" by (simp add: p)
      then show ?thesis by (intro bexI[of _ p]) simp_all
    next
      case 2
      with q2(3) obtain p2 where "p2 \<in> set ks"
        "mcm_record c (map fst (snd (snd p2))) (fst (snd p2)) r" by blast
      then show ?thesis by (intro bexI[of _ p2]) simp_all
    qed
  qed
  from 1 2 3 show ?case by blast
qed

lemma built_facts_sets:
  "kind_answers (map Fact_build fs) = kind_answers fs"
  "correct_answers (map Fact_build fs) = correct_answers fs"
  "kind_questions (map Fact_build fs) = kind_questions fs"
proof -
  have a: "map answers (filter P' (map Fact_build fs)) = map answers (filter P fs)"
    if "\<And>f. P' (Fact_build f) = P f" for P P'
    using that by (induction fs) (simp_all add: Fact_build_same)
  have q: "map questions (filter P' (map Fact_build fs)) = map questions (filter P fs)"
    if "\<And>f. P' (Fact_build f) = P f" for P P'
    using that by (induction fs) (simp_all add: Fact_build_same)
  show "kind_answers (map Fact_build fs) = kind_answers fs"
    by (intro ext) (simp add: kind_answers_def a[of "\<lambda>f. fkind f = _"] Fact_build_same)
  show "correct_answers (map Fact_build fs) = correct_answers fs"
    by (intro ext)
      (simp add: correct_answers_def a[of "\<lambda>f. fkind f = _ \<and> _ \<in> set (questions f)"]
        Fact_build_same)
  show "kind_questions (map Fact_build fs) = kind_questions fs"
    by (intro ext) (simp add: kind_questions_def q[of "\<lambda>f. fkind f = _"] Fact_build_same)
qed

lemma mcm_record_choices:
  assumes "mcm_record c al qd r" and "distinct al" and "dict_ok qd"
  shows "\<exists>correct. map_of qd (question r) = Some correct
     \<and> answer r \<in> set correct
     \<and> count_list (choices r) (answer r) = 1
     \<and> length (choices r) = min (card (set al - set correct)) (CHOICES c) + 1
     \<and> set (choices r) \<subseteq> insert (answer r) (set al - set correct)"
proof -
  from assms(1) obtain correct smp
    where mem: "(question r, correct) \<in> set qd" and rgt: "answer r \<in> set correct"
      and perm: "mset (choices r) = add_mset (answer r) (mset smp)"
      and sub: "mset smp \<subseteq># mset (filter (\<lambda>a. a \<notin> set correct) al)"
      and len: "length smp = min (length (filter (\<lambda>a. a \<notin> set correct) al)) (CHOICES c)"
    unfolding mcm_record_def by blast
  let ?wrong = "filter (\<lambda>a. a \<notin> set correct) al"
  have dw: "distinct ?wrong" using assms(2) by simp
  have sw: "set ?wrong = set al - set correct" by auto
  from sub have ss: "set smp \<subseteq> set ?wrong"
    using set_mset_mono by fastforce
  with rgt have notin: "answer r \<notin> set smp" by auto
  have "count (mset (choices r)) (answer r) = 1"
    unfolding perm using notin by (simp add: count_mset count_list_0_iff)
  then have 1: "count_list (choices r) (answer r) = 1"
    by (simp add: count_mset)
  have "size (mset (choices r)) = Suc (length smp)"
    unfolding perm by simp
  then have "length (choices r) = length smp + 1" by simp
  moreover have "length ?wrong = card (set al - set correct)"
    using distinct_card[OF dw] sw by simp
  ultimately have 2: "length (choices r) = min (card (set al - set correct)) (CHOICES c) + 1"
    using len by simp
  have "set (choices r) = set_mset (mset (choices r))" by simp
  also have "\<dots> = insert (answer r) (set smp)" unfolding perm by simp
  finally have 3: "set (choices r) \<subseteq> insert (answer r) (set al - set correct)"
    using ss sw by auto
  from dict_ok_member[OF assms(3) mem] have "map_of qd (question r) = Some correct" by simp
  with rgt 1 2 3 show ?thesis by blast
qed

lemma MCM_build_result:
  assumes "\<forall>f \<in> set (facts c). fresh_or_built f \<and> answers f \<noteq> []"
  shows "\<exists>b g'. MCM_build c g
            = (None, c\<lparr>facts := map Fact_build (facts c), q_and_a := q_and_a c @ b\<rparr>, g')
         \<and> map question b
            = concat (map (\<lambda>p. map fst (fst (snd p)))
                (foldl MCM_collect [] (map Fact_build (facts c))))
         \<and> (\<forall>r \<in> set b. kind r = NAME (cls c)
                \<and> (\<exists>k. choices_ok (facts c) (CHOICES (cls c)) r k))"
proof -
  let ?fs = "map Fact_build (facts c)"
  let ?ks = "foldl MCM_collect [] ?fs"
  from assms have fresh: "\<forall>f \<in> set (facts c). fresh_or_built f" by blast
  note abs0 = MCM_kinds_abs[OF built_facts(1)[OF fresh]]
  from abs0 have ok: "kinds_ok ?ks" by (rule conjunct1)
  have gq: "gq ?ks k q = correct_answers (facts c) k q" for k q
    using abs0 by (simp add: built_facts_sets)
  have gk: "gkeys ?ks k = kind_questions (facts c) k" for k
    using abs0 by (simp add: built_facts_sets)
  have ga: "ga ?ks k = kind_answers (facts c) k" for k
    using abs0 by (simp add: built_facts_sets)
  have grp: "dict_ok (fst (snd p)) \<and> dict_ok (snd (snd p)) \<and> group_of ?ks (fst p) = snd p"
    if "p \<in> set ?ks" for p
    using that ok group_of_member[OF ok, of "fst p" "snd p"] by (simp add: kinds_ok_def)
  have key: "q \<in> kind_questions (facts c) (fst p) \<and> set s = correct_answers (facts c) (fst p) q"
    if p: "p \<in> set ?ks" and qs: "(q, s) \<in> set (fst (snd p))" for p q s
  proof -
    note g = grp[OF p]
    from qs have "q \<in> gkeys ?ks (fst p)"
      using g by (force simp: gkeys_def)
    moreover from dict_ok_member[OF conjunct1[OF g] qs] have "gq ?ks (fst p) q = set s"
      using g by (simp add: gq_def dset_def)
    ultimately show ?thesis by (simp add: gq gk)
  qed
  have nonempty: "\<forall>p \<in> set ?ks. \<forall>p' \<in> set (fst (snd p)). snd p' \<noteq> []"
  proof (intro ballI)
    fix p p' assume p: "p \<in> set ?ks" and p': "p' \<in> set (fst (snd p))"
    obtain q s where qs: "p' = (q, s)" by (cases p')
    from key[OF p p'[unfolded qs]]
    have q: "q \<in> kind_questions (facts c) (fst p)"
      and s: "set s = correct_answers (facts c) (fst p) q" by simp_all
    from q obtain f where f: "f \<in> set (facts c)" "fkind f = fst p" "q \<in> set (questions f)"
      by (auto simp: kind_questions_def)
    with assms have "answers f \<noteq> []" by blast
    then obtain a where "a \<in> set (answers f)" by (cases "answers f") auto
    with f have "a \<in> correct_answers (facts c) (fst p) q"
      by (auto simp: correct_answers_def)
    with s qs show "snd p' \<noteq> []" by auto
  qed
  from MCM_kinds_result[OF nonempty, of "cls c" "q_and_a c" g] obtain b g'
    where run: "MCM_kinds (cls c) ?ks (q_and_a c) g = (None, q_and_a c @ b, g')"
      and qs: "map question b = concat (map (\<lambda>p. map fst (fst (snd p))) ?ks)"
      and recs: "\<forall>r \<in> set b. \<exists>p \<in> set ?ks.
                   mcm_record (cls c) (map fst (snd (snd p))) (fst (snd p)) r"
    by blast
  have 1: "MCM_build c g
            = (None, c\<lparr>facts := map Fact_build (facts c), q_and_a := q_and_a c @ b\<rparr>, g')"
    using run by (simp add: MCM_build_def Let_def)
  have 3: "\<forall>r \<in> set b. kind r = NAME (cls c)
                \<and> (\<exists>k. choices_ok (facts c) (CHOICES (cls c)) r k)"
  proof
    fix r assume "r \<in> set b"
    with recs obtain p where p: "p \<in> set ?ks"
      and m: "mcm_record (cls c) (map fst (snd (snd p))) (fst (snd p)) r" by blast
    note g = grp[OF p]
    from g have dal: "distinct (map fst (snd (snd p)))" by (simp add: dict_ok_def)
    from mcm_record_choices[OF m dal conjunct1[OF g]] obtain correct
      where look: "map_of (fst (snd p)) (question r) = Some correct"
        and rgt: "answer r \<in> set correct"
        and cnt: "count_list (choices r) (answer r) = 1"
        and len: "length (choices r)
            = min (card (set (map fst (snd (snd p))) - set correct)) (CHOICES (cls c)) + 1"
        and sub: "set (choices r)
            \<subseteq> insert (answer r) (set (map fst (snd (snd p))) - set correct)"
      by blast
    from look have "(question r, correct) \<in> set (fst (snd p))" by (rule map_of_SomeD)
    from key[OF p this]
    have kq: "question r \<in> kind_questions (facts c) (fst p)"
      and sc: "set correct = correct_answers (facts c) (fst p) (question r)" by simp_all
    have sa: "set (map fst (snd (snd p))) = kind_answers (facts c) (fst p)"
      using ga[of "fst p"] g by (simp add: ga_def)
    have "choices_ok (facts c) (CHOICES (cls c)) r (fst p)"
      unfolding choices_ok_def using kq rgt cnt len sub unfolding sa sc by simp
    moreover from m have "kind r = NAME (cls c)" by (auto simp: mcm_record_def)
    ultimately show "kind r = NAME (cls c)
                \<and> (\<exists>k. choices_ok (facts c) (CHOICES (cls c)) r k)" by blast
  qed
  from 1 qs 3 show ?thesis by blast
qed

text \<open>
  Claim C1. For a Matching (\<open>C = 25\<close>) or MultipleChoice (\<open>C = 3\<close>) category made
  by the constructor, \<open>build\<close> returns without an exception, and every Record it
  appended belongs to a fact kind \<open>k\<close> under which its question occurs such that: the
  stored answer is a correct answer of the question within kind \<open>k\<close>, it occurs exactly
  once among the choices, the number of choices is \<open>min(poolSize, C) + 1\<close> with
  poolSize the number of distinct answers of kind \<open>k\<close> that are not correct answers of
  the question, and every other choice is one of those pool answers (so no answer of a
  fact of another kind appears).
\<close>

theorem C1_choices_of_matching_and_multiple_choice:
  assumes "get_category n = Inr c" and "cls c = Matching \<or> cls c = MultipleChoice"
    and "build c g = (e, c', g')"
  shows "e = None
     \<and> (\<forall>r \<in> set (q_and_a c'). \<exists>k.
           question r \<in> kind_questions (facts c) k
         \<and> answer r \<in> correct_answers (facts c) k (question r)
         \<and> count_list (choices r) (answer r) = 1
         \<and> length (choices r)
             = min (card (kind_answers (facts c) k - correct_answers (facts c) k (question r)))
                   (if cls c = Matching then 25 else 3) + 1
         \<and> set (choices r) - {answer r}
             \<subseteq> kind_answers (facts c) k - correct_answers (facts c) k (question r))"
proof -
  have valid: "\<forall>f \<in> set (facts c). fresh_or_built f \<and> answers f \<noteq> []"
    using get_category_Inr(3)[OF assms(1)] by (simp add: fresh_or_built_def)
  have empty: "q_and_a c = []" using get_category_Inr(1)[OF assms(1)] .
  from assms(2) have b: "build c g = MCM_build c g"
    by (auto simp: build_def)
  from assms(2) have C: "CHOICES (cls c) = (if cls c = Matching then 25 else 3)"
    by auto
  from MCM_build_result[OF valid, of g] obtain b' g1
    where run: "MCM_build c g
            = (None, c\<lparr>facts := map Fact_build (facts c), q_and_a := q_and_a c @ b'\<rparr>, g1)"
      and recs: "\<forall>r \<in> set b'. kind r = NAME (cls c)
                \<and> (\<exists>k. choices_ok (facts c) (CHOICES (cls c)) r k)"
    by blast
  from run b assms(3) empty have e: "e = None" and out: "q_and_a c' = b'"
    by auto
  have "\<exists>k. question r \<in> kind_questions (facts c) k
         \<and> answer r \<in> correct_answers (facts c) k (question r)
         \<and> count_list (choices r) (answer r) = 1
         \<and> length (choices r)
             = min (card (kind_answers (facts c) k - correct_answers (facts c) k (question r)))
                   (if cls c = Matching then 25 else 3) + 1
         \<and> set (choices r) - {answer r}
             \<subseteq> kind_answers (facts c) k - correct_answers (facts c) k (question r)"
    if "r \<in> set (q_and_a c')" for r
  proof -
    from that out recs obtain k where "choices_ok (facts c) (CHOICES (cls c)) r k"
      by blast
    then show ?thesis
      unfolding choices_ok_def C by (intro exI[of _ k]) auto
  qed
  with e show ?thesis by blast
qed

lemma build_twice_MCM:
  assumes "\<forall>f \<in> set (facts c). fresh_or_built f \<and> answers f \<noteq> []"
    and "MCM_build c g1 = (e1, c1, g1')" and "MCM_build c1 g2 = (e2, c2, g2')"
  shows "e2 = None \<and> (\<exists>b1 b2. q_and_a c1 = q_and_a c @ b1 \<and> q_and_a c2 = q_and_a c1 @ b2
            \<and> map question b2 = map question b1) \<and> cls c1 = cls c"
proof -
  from MCM_build_result[OF assms(1), of g1] assms(2) obtain b1
    where c1: "c1 = c\<lparr>facts := map Fact_build (facts c), q_and_a := q_and_a c @ b1\<rparr>"
      and q1: "map question b1
            = concat (map (\<lambda>p. map fst (fst (snd p)))
                (foldl MCM_collect [] (map Fact_build (facts c))))"
    by auto
  have valid1: "\<forall>f \<in> set (facts c1). fresh_or_built f \<and> answers f \<noteq> []"
    using assms(1) by (auto simp: c1 Fact_build_built Fact_build_same)
  have same: "map Fact_build (facts c1) = map Fact_build (facts c)"
    using assms(1) by (simp add: c1 Fact_build_idem)
  from MCM_build_result[OF valid1, of g2] assms(3) obtain b2
    where e2: "e2 = None"
      and c2: "c2 = c1\<lparr>facts := map Fact_build (facts c1), q_and_a := q_and_a c1 @ b2\<rparr>"
      and q2: "map question b2
            = concat (map (\<lambda>p. map fst (fst (snd p)))
                (foldl MCM_collect [] (map Fact_build (facts c1))))"
    by auto
  from q1 q2 same have "map question b2 = map question b1" by simp
  moreover have "q_and_a c1 = q_and_a c @ b1" "q_and_a c2 = q_and_a c1 @ b2" "cls c1 = cls c"
    by (simp_all add: c1 c2)
  ultimately show ?thesis using e2 by blast
qed

lemma build_twice_TrueOrFalse:
  assumes "\<forall>f \<in> set (facts c). fresh_or_built f"
    and "TrueOrFalse_build c g1 = (None, c1, g1')" and "TrueOrFalse_build c1 g2 = (e2, c2, g2')"
  shows "e2 = None \<and> (\<exists>b1 b2. q_and_a c1 = q_and_a c @ b1 \<and> q_and_a c2 = q_and_a c1 @ b2
            \<and> map question b2 = map question b1) \<and> cls c1 = cls c"
proof -
  let ?d = "foldl TrueOrFalse_collect [] (map Fact_build (facts c))"
  obtain out1 where r1: "TrueOrFalse_questions ?d (q_and_a c) g1 = (None, out1, g1')"
    and c1: "c1 = c\<lparr>facts := map Fact_build (facts c), q_and_a := out1\<rparr>"
    using assms(2) by (auto simp: TrueOrFalse_build_def Let_def split: prod.splits)
  from TrueOrFalse_questions_result[OF r1] obtain b1
    where b1: "out1 = q_and_a c @ b1" "map question b1 = map fst ?d" by auto
  from r1 TrueOrFalse_questions_error[of ?d "q_and_a c" g1]
  have good: "\<forall>p \<in> set ?d. length (snd p) = 1"
    by (auto split: if_splits)
  have same: "map Fact_build (facts c1) = map Fact_build (facts c)"
    using assms(1) by (simp add: c1 Fact_build_idem)
  obtain out2 where r2: "TrueOrFalse_questions ?d (q_and_a c1) g2 = (e2, out2, g2')"
    and c2: "c2 = c1\<lparr>facts := map Fact_build (facts c1), q_and_a := out2\<rparr>"
    using assms(3) same by (auto simp: TrueOrFalse_build_def Let_def split: prod.splits)
  from r2 TrueOrFalse_questions_error[of ?d "q_and_a c1" g2] good
  have e2: "e2 = None" by simp
  from TrueOrFalse_questions_result[OF r2] e2 obtain b2
    where b2: "out2 = q_and_a c1 @ b2" "map question b2 = map fst ?d" by auto
  have "q_and_a c1 = q_and_a c @ b1" "q_and_a c2 = q_and_a c1 @ b2" "cls c1 = cls c"
    using b1(1) b2(1) by (simp_all add: c1 c2)
  moreover have "map question b2 = map question b1" using b1(2) b2(2) by simp
  ultimately show ?thesis using e2 by blast
qed

subsection \<open>One batch of Records per build\<close>

lemma count_list_distinct:
  "distinct xs \<Longrightarrow> count_list xs x = (if x \<in> set xs then 1 else 0)"
  by (induction xs) auto

lemma count_list_concat_keys:
  "\<forall>p \<in> set ks. distinct (map fst (fst (snd p))) \<Longrightarrow>
     count_list (concat (map (\<lambda>p. map fst (fst (snd p))) ks)) q
       = length (filter (\<lambda>p. q \<in> fst ` set (fst (snd p))) ks)"
proof (induction ks)
  case Nil
  then show ?case by simp
next
  case (Cons p ks)
  from Cons.prems have d: "distinct (map fst (fst (snd p)))" by simp
  from Cons.prems have "\<forall>p \<in> set ks. distinct (map fst (fst (snd p)))" by simp
  note ih = Cons.IH[OF this]
  show ?case
    using ih count_list_distinct[OF d, of q] by simp
qed

lemma gkeys_groups:
  assumes "kinds_ok ks"
  shows "{k. q \<in> gkeys ks k} = fst ` set (filter (\<lambda>p. q \<in> fst ` set (fst (snd p))) ks)"
proof (intro set_eqI iffI)
  fix k assume "k \<in> {k. q \<in> gkeys ks k}"
  then have q: "q \<in> fst ` set (fst (group_of ks k))" by (simp add: gkeys_def)
  then obtain grp where look: "map_of ks k = Some grp"
    by (cases "map_of ks k") (auto simp: group_of_def)
  then have mem: "(k, grp) \<in> set ks" by (rule map_of_SomeD)
  from look have "group_of ks k = grp" by (simp add: group_of_def)
  with q mem have "(k, grp) \<in> set (filter (\<lambda>p. q \<in> fst ` set (fst (snd p))) ks)"
    by simp
  then show "k \<in> fst ` set (filter (\<lambda>p. q \<in> fst ` set (fst (snd p))) ks)"
    by (rule image_eqI[rotated]) simp
next
  fix k assume "k \<in> fst ` set (filter (\<lambda>p. q \<in> fst ` set (fst (snd p))) ks)"
  then obtain p where kp: "k = fst p"
    and pf: "p \<in> set (filter (\<lambda>p. q \<in> fst ` set (fst (snd p))) ks)"
    by (rule imageE)
  from pf have p: "p \<in> set ks" "q \<in> fst ` set (fst (snd p))"
    by simp_all
  obtain grp where pk: "p = (k, grp)" using kp by (cases p) simp
  have mem: "(k, grp) \<in> set ks" using p(1) unfolding pk .
  have q: "q \<in> fst ` set (fst grp)" using p(2) unfolding pk snd_conv .
  from group_of_member[OF assms mem] q show "k \<in> {k. q \<in> gkeys ks k}"
    by (simp add: gkeys_def)
qed

lemma count_list_kinds:
  assumes "kinds_ok ks"
  shows "count_list (concat (map (\<lambda>p. map fst (fst (snd p))) ks)) q = card {k. q \<in> gkeys ks k}"
proof -
  let ?P = "\<lambda>p. q \<in> fst ` set (fst (snd p))"
  from assms have d: "\<forall>p \<in> set ks. distinct (map fst (fst (snd p)))"
    by (simp add: kinds_ok_def dict_ok_def)
  from assms have "distinct (map fst ks)" by (simp add: kinds_ok_def)
  then have "distinct (map fst (filter ?P ks))" by (rule distinct_map_filter)
  from distinct_card[OF this]
  have "card (fst ` set (filter ?P ks)) = length (filter ?P ks)" by simp
  with count_list_concat_keys[OF d, of q] gkeys_groups[OF assms, of q]
  show ?thesis by simp
qed

lemma kinds_of_question:
  "{k. q \<in> kind_questions fs k} = set (map fkind (filter (\<lambda>f. q \<in> set (questions f)) fs))"
  by (auto simp: kind_questions_def)

lemma MCM_build_batch:
  assumes "\<forall>f \<in> set (facts c). fresh_or_built f \<and> answers f \<noteq> []"
  shows "\<exists>b g'. MCM_build c g
            = (None, c\<lparr>facts := map Fact_build (facts c), q_and_a := q_and_a c @ b\<rparr>, g')
         \<and> (\<forall>q. count_list (map question b) q
                = length (remdups (map fkind (filter (\<lambda>f. q \<in> set (questions f)) (facts c)))))
         \<and> (\<forall>r \<in> set b. kind r = NAME (cls c)
                \<and> (\<exists>k. choices_ok (facts c) (CHOICES (cls c)) r k))"
proof -
  let ?ks = "foldl MCM_collect [] (map Fact_build (facts c))"
  from assms have fresh: "\<forall>f \<in> set (facts c). fresh_or_built f" by blast
  note abs0 = MCM_kinds_abs[OF built_facts(1)[OF fresh]]
  from abs0 have ok: "kinds_ok ?ks" by (rule conjunct1)
  have gk: "gkeys ?ks k = kind_questions (facts c) k" for k
    using abs0 by (simp add: built_facts_sets)
  from MCM_build_result[OF assms, of g] obtain b g'
    where run: "MCM_build c g
            = (None, c\<lparr>facts := map Fact_build (facts c), q_and_a := q_and_a c @ b\<rparr>, g')"
      and qs: "map question b = concat (map (\<lambda>p. map fst (fst (snd p))) ?ks)"
      and recs: "\<forall>r \<in> set b. kind r = NAME (cls c)
                \<and> (\<exists>k. choices_ok (facts c) (CHOICES (cls c)) r k)"
    by blast
  have "count_list (map question b) q
          = length (remdups (map fkind (filter (\<lambda>f. q \<in> set (questions f)) (facts c))))" for q
  proof -
    have "count_list (map question b) q = card {k. q \<in> kind_questions (facts c) k}"
      unfolding qs count_list_kinds[OF ok] gk ..
    also have "\<dots> = card (set (map fkind (filter (\<lambda>f. q \<in> set (questions f)) (facts c))))"
      unfolding kinds_of_question ..
    also have "\<dots> = length (remdups (map fkind (filter (\<lambda>f. q \<in> set (questions f)) (facts c))))"
      by (simp add: length_remdups_card_conv)
    finally show ?thesis .
  qed
  with run recs show ?thesis by blast
qed

lemma TrueOrFalse_build_batch:
  assumes fresh: "\<forall>f \<in> set (facts c). fresh_or_built f"
    and tf: "\<forall>f \<in> set (facts c). set (answers f) \<subseteq> {''True'', ''False''}"
    and run: "TrueOrFalse_build c g = (e, c1, g')"
  shows "\<exists>b. c1 = c\<lparr>facts := map Fact_build (facts c), q_and_a := q_and_a c @ b\<rparr>
         \<and> (e = None \<longrightarrow> (\<forall>q. count_list (map question b) q
                = (if \<exists>f \<in> set (facts c). q \<in> set (questions f) then 1 else 0)))
         \<and> (\<forall>r \<in> set b. kind r = ''True or False''
                \<and> (choices r = [''True'', ''False''] \<or> choices r = [''False'', ''True''])
                \<and> count_list (choices r) (answer r) = 1
                \<and> recorded_answers (facts c) (question r) = {answer r})"
proof -
  let ?d = "foldl TrueOrFalse_collect [] (map Fact_build (facts c))"
  note d = TrueOrFalse_build_dict[OF fresh]
  obtain out where r1: "TrueOrFalse_questions ?d (q_and_a c) g = (e, out, g')"
    and c1: "c1 = c\<lparr>facts := map Fact_build (facts c), q_and_a := out\<rparr>"
    using run by (auto simp: TrueOrFalse_build_def Let_def split: prod.splits)
  from TrueOrFalse_questions_result[OF r1] obtain b
    where b: "out = q_and_a c @ b" and recs: "\<forall>r \<in> set b. tf_record ?d r"
      and qs: "e = None \<longrightarrow> map question b = map fst ?d"
    by blast
  have 1: "c1 = c\<lparr>facts := map Fact_build (facts c), q_and_a := q_and_a c @ b\<rparr>"
    using c1 b by simp
  have 2: "\<forall>q. count_list (map question b) q
                = (if \<exists>f \<in> set (facts c). q \<in> set (questions f) then 1 else 0)"
    if "e = None"
  proof
    fix q
    from d(1) have dist: "distinct (map fst ?d)" by (simp add: dict_ok_def)
    have keys: "set (map fst ?d) = (\<Union>f \<in> set (facts c). set (questions f))"
      using d(3) by simp
    from qs that have "map question b = map fst ?d" by simp
    then show "count_list (map question b) q
                = (if \<exists>f \<in> set (facts c). q \<in> set (questions f) then 1 else 0)"
      using count_list_distinct[OF dist, of q] unfolding keys by auto
  qed
  have 3: "\<forall>r \<in> set b. kind r = ''True or False''
                \<and> (choices r = [''True'', ''False''] \<or> choices r = [''False'', ''True''])
                \<and> count_list (choices r) (answer r) = 1
                \<and> recorded_answers (facts c) (question r) = {answer r}"
  proof
    fix r assume "r \<in> set b"
    with recs have "tf_record ?d r" by blast
    then have mem: "(question r, [answer r]) \<in> set ?d"
      and perm: "choices r = [''True'', ''False''] \<or> choices r = [''False'', ''True'']"
      and kd: "kind r = ''True or False''"
      by (simp_all add: tf_record_def)
    from dict_ok_member[OF d(1) mem] have "dset ?d (question r) = {answer r}"
      by (simp add: dset_def)
    with d(2)[of "question r"] have rec: "recorded_answers (facts c) (question r) = {answer r}"
      by simp
    then have "answer r \<in> set (concat (map answers
                 (filter (\<lambda>f. question r \<in> set (questions f)) (facts c))))"
      by (simp add: recorded_answers_def)
    then obtain f where f: "f \<in> set (facts c)" "answer r \<in> set (answers f)"
      by auto
    from bspec[OF tf f(1)] f(2)
    have val: "answer r = ''True'' \<or> answer r = ''False''" by auto
    have "count_list (choices r) (answer r) = 1"
      using perm val by (elim disjE) simp_all
    with perm rec kd
    show "kind r = ''True or False''
                \<and> (choices r = [''True'', ''False''] \<or> choices r = [''False'', ''True''])
                \<and> count_list (choices r) (answer r) = 1
                \<and> recorded_answers (facts c) (question r) = {answer r}" by simp
  qed
  from 1 2 3 show ?thesis by blast
qed

lemma filter_questions_built:
  "map fkind (filter (\<lambda>f. q \<in> set (questions f)) (map Fact_build fs))
     = map fkind (filter (\<lambda>f. q \<in> set (questions f)) fs)"
  by (induction fs) (simp_all add: Fact_build_same)

lemma choices_ok_built: "choices_ok (map Fact_build fs) = choices_ok fs"
  by (intro ext) (simp add: choices_ok_def built_facts_sets)

lemma recorded_answers_built: "recorded_answers (map Fact_build fs) = recorded_answers fs"
proof -
  have "map answers (filter (\<lambda>f. q \<in> set (questions f)) (map Fact_build fs))
          = map answers (filter (\<lambda>f. q \<in> set (questions f)) fs)" for q
    by (induction fs) (simp_all add: Fact_build_same)
  then show ?thesis
    by (intro ext) (simp add: recorded_answers_def)
qed

lemma after_build_same:
  assumes "facts c1 = map Fact_build (facts c)" and "cls c1 = cls c"
  shows "records_per_build c1 = records_per_build c" and "built_record c1 = built_record c"
proof -
  show "records_per_build c1 = records_per_build c"
    by (intro ext)
      (simp add: records_per_build_def assms filter_questions_built Fact_build_same)
  show "built_record c1 = built_record c"
    by (intro ext)
      (simp add: built_record_def assms choices_ok_built recorded_answers_built)
qed

lemma build_batch:
  assumes valid: "\<forall>f \<in> set (facts c). fresh_or_built f \<and> answers f \<noteq> []
                    \<and> (cls c = TrueOrFalse \<longrightarrow> set (answers f) \<subseteq> {''True'', ''False''})"
    and run: "build c g = (None, c1, g')"
  shows "\<exists>b. q_and_a c1 = q_and_a c @ b \<and> facts c1 = map Fact_build (facts c) \<and> cls c1 = cls c
           \<and> (\<forall>q. count_list (map question b) q = records_per_build c q)
           \<and> (\<forall>r \<in> set b. built_record c r)"
proof (cases "cls c = TrueOrFalse")
  case True
  with run have 1: "TrueOrFalse_build c g = (None, c1, g')"
    by (simp add: build_def)
  from valid have fresh: "\<forall>f \<in> set (facts c). fresh_or_built f" by blast
  from valid True have tf: "\<forall>f \<in> set (facts c). set (answers f) \<subseteq> {''True'', ''False''}"
    by blast
  from TrueOrFalse_build_batch[OF fresh tf 1] obtain b
    where c1: "c1 = c\<lparr>facts := map Fact_build (facts c), q_and_a := q_and_a c @ b\<rparr>"
      and cnt: "\<forall>q. count_list (map question b) q
                = (if \<exists>f \<in> set (facts c). q \<in> set (questions f) then 1 else 0)"
      and recs: "\<forall>r \<in> set b. kind r = ''True or False''
                \<and> (choices r = [''True'', ''False''] \<or> choices r = [''False'', ''True''])
                \<and> count_list (choices r) (answer r) = 1
                \<and> recorded_answers (facts c) (question r) = {answer r}"
    by blast
  have a: "q_and_a c1 = q_and_a c @ b" "facts c1 = map Fact_build (facts c)" "cls c1 = cls c"
    by (simp_all add: c1)
  have b: "\<forall>q. count_list (map question b) q = records_per_build c q"
    using cnt True by (simp add: records_per_build_def)
  have c: "\<forall>r \<in> set b. built_record c r"
    using recs True by (simp add: built_record_def)
  from a b c show ?thesis by blast
next
  case False
  with run have 1: "MCM_build c g = (None, c1, g')"
    by (cases "cls c") (simp_all add: build_def)
  from valid have v: "\<forall>f \<in> set (facts c). fresh_or_built f \<and> answers f \<noteq> []" by blast
  from MCM_build_batch[OF v, of g] 1 obtain b
    where c1: "c1 = c\<lparr>facts := map Fact_build (facts c), q_and_a := q_and_a c @ b\<rparr>"
      and cnt: "\<forall>q. count_list (map question b) q
                = length (remdups (map fkind (filter (\<lambda>f. q \<in> set (questions f)) (facts c))))"
      and recs: "\<forall>r \<in> set b. kind r = NAME (cls c)
                \<and> (\<exists>k. choices_ok (facts c) (CHOICES (cls c)) r k)"
    by auto
  have a: "q_and_a c1 = q_and_a c @ b" "facts c1 = map Fact_build (facts c)" "cls c1 = cls c"
    by (simp_all add: c1)
  have b: "\<forall>q. count_list (map question b) q = records_per_build c q"
    using cnt False by (simp add: records_per_build_def)
  have c: "\<forall>r \<in> set b. built_record c r"
    using recs False by (simp add: built_record_def)
  from a b c show ?thesis by blast
qed

lemma second_build_returns:
  assumes valid: "\<forall>f \<in> set (facts c). fresh_or_built f \<and> answers f \<noteq> []"
    and 1: "build c g1 = (None, c1, g1')" and 2: "build c1 g2 = (e2, c2, g2')"
  shows "e2 = None"
proof (cases "cls c = TrueOrFalse")
  case True
  with 1 have a: "TrueOrFalse_build c g1 = (None, c1, g1')"
    by (simp add: build_def)
  then have "cls c1 = TrueOrFalse"
    using True by (auto simp: TrueOrFalse_build_def Let_def split: prod.splits)
  with 2 have b: "TrueOrFalse_build c1 g2 = (e2, c2, g2')"
    by (simp add: build_def)
  from valid have "\<forall>f \<in> set (facts c). fresh_or_built f" by blast
  from build_twice_TrueOrFalse[OF this a b] show ?thesis by blast
next
  case False
  with 1 have a: "MCM_build c g1 = (None, c1, g1')"
    by (cases "cls c") (simp_all add: build_def)
  from build_twice_MCM[OF valid a] have "cls c1 = cls c"
    by (cases "MCM_build c1 g2") blast
  with False 2 have b: "MCM_build c1 g2 = (e2, c2, g2')"
    by (cases "cls c") (simp_all add: build_def)
  from build_twice_MCM[OF valid a b] show ?thesis by blast
qed

text \<open>
  Claim C9. On a category made by the constructor, a first \<open>build()\<close> that returns
  appends a Record for every distinct question (one per question text in a true/false
  category, one per fact kind and question text otherwise). A second \<open>build()\<close> on
  the same category returns too; it keeps the records of the first call at the front of
  \<open>q_and_a\<close> and appends a complete fresh batch with the same questions: the list
  is twice as long and holds two Records per distinct question instead of one. Every
  Record of the list, of the first batch and of the second, is a built one: it has the
  properties of claim C5 in a true/false category and those of claim C1 otherwise.
\<close>

theorem C9_second_build_appends:
  assumes "get_category n = Inr c"
    and "build c g1 = (None, c1, g1')" and "build c1 g2 = (e2, c2, g2')"
  shows "e2 = None
     \<and> take (length (q_and_a c1)) (q_and_a c2) = q_and_a c1
     \<and> mset (map question (drop (length (q_and_a c1)) (q_and_a c2)))
         = mset (map question (q_and_a c1))
     \<and> length (q_and_a c2) = 2 * length (q_and_a c1)
     \<and> (\<forall>q. count_list (map question (q_and_a c1)) q = records_per_build c q
            \<and> count_list (map question (q_and_a c2)) q = 2 * records_per_build c q)
     \<and> (\<forall>r \<in> set (q_and_a c2).
           (cls c = TrueOrFalse \<longrightarrow>
              kind r = ''True or False''
            \<and> (choices r = [''True'', ''False''] \<or> choices r = [''False'', ''True''])
            \<and> count_list (choices r) (answer r) = 1
            \<and> recorded_answers (facts c) (question r) = {answer r})
         \<and> (cls c \<noteq> TrueOrFalse \<longrightarrow>
              kind r = NAME (cls c)
            \<and> (\<exists>k. question r \<in> kind_questions (facts c) k
                 \<and> answer r \<in> correct_answers (facts c) k (question r)
                 \<and> count_list (choices r) (answer r) = 1
                 \<and> length (choices r)
                     = min (card (kind_answers (facts c) k
                                   - correct_answers (facts c) k (question r)))
                           (CHOICES (cls c)) + 1
                 \<and> set (choices r) - {answer r}
                     \<subseteq> kind_answers (facts c) k - correct_answers (facts c) k (question r))))"
proof -
  have valid: "\<forall>f \<in> set (facts c). fresh_or_built f \<and> answers f \<noteq> []
                    \<and> (cls c = TrueOrFalse \<longrightarrow> set (answers f) \<subseteq> {''True'', ''False''})"
    using get_category_Inr(3)[OF assms(1)] by (simp add: fresh_or_built_def)
  then have valid0: "\<forall>f \<in> set (facts c). fresh_or_built f \<and> answers f \<noteq> []" by blast
  have empty: "q_and_a c = []" using get_category_Inr(1)[OF assms(1)] .
  from build_batch[OF valid assms(2)] empty obtain b1
    where b1: "q_and_a c1 = b1" and f1: "facts c1 = map Fact_build (facts c)"
      and k1: "cls c1 = cls c"
      and cnt1: "\<forall>q. count_list (map question b1) q = records_per_build c q"
      and rec1: "\<forall>r \<in> set b1. built_record c r"
    by auto
  note same = after_build_same[OF f1 k1]
  from second_build_returns[OF valid0 assms(2,3)] have e2: "e2 = None" .
  have valid1: "\<forall>f \<in> set (facts c1). fresh_or_built f \<and> answers f \<noteq> []
                    \<and> (cls c1 = TrueOrFalse \<longrightarrow> set (answers f) \<subseteq> {''True'', ''False''})"
    using valid by (auto simp: f1 k1 Fact_build_built Fact_build_same)
  from build_batch[OF valid1 assms(3)[unfolded e2]] obtain b2
    where b2: "q_and_a c2 = q_and_a c1 @ b2"
      and cnt2: "\<forall>q. count_list (map question b2) q = records_per_build c q"
      and rec2: "\<forall>r \<in> set b2. built_record c r"
    unfolding same by blast
  have "count (mset (map question b2)) q = count (mset (map question b1)) q" for q
    unfolding count_mset using cnt1 cnt2 by simp
  then have ms: "mset (map question b2) = mset (map question b1)"
    by (rule multiset_eqI)
  then have "size (mset (map question b2)) = size (mset (map question b1))" by simp
  then have len: "length b2 = length b1" by simp
  have 2: "take (length (q_and_a c1)) (q_and_a c2) = q_and_a c1" by (simp add: b2)
  have 3: "mset (map question (drop (length (q_and_a c1)) (q_and_a c2)))
         = mset (map question (q_and_a c1))"
    using ms by (simp add: b2 b1)
  have 4: "length (q_and_a c2) = 2 * length (q_and_a c1)"
    using len by (simp add: b2 b1)
  have 5: "\<forall>q. count_list (map question (q_and_a c1)) q = records_per_build c q
            \<and> count_list (map question (q_and_a c2)) q = 2 * records_per_build c q"
    using cnt1 cnt2 by (simp add: b2 b1)
  have all: "\<forall>r \<in> set (q_and_a c2). built_record c r"
    using rec1 rec2 by (auto simp: b2 b1)
  have 6: "(cls c = TrueOrFalse \<longrightarrow>
              kind r = ''True or False''
            \<and> (choices r = [''True'', ''False''] \<or> choices r = [''False'', ''True''])
            \<and> count_list (choices r) (answer r) = 1
            \<and> recorded_answers (facts c) (question r) = {answer r})
         \<and> (cls c \<noteq> TrueOrFalse \<longrightarrow>
              kind r = NAME (cls c)
            \<and> (\<exists>k. question r \<in> kind_questions (facts c) k
                 \<and> answer r \<in> correct_answers (facts c) k (question r)
                 \<and> count_list (choices r) (answer r) = 1
                 \<and> length (choices r)
                     = min (card (kind_answers (facts c) k
                                   - correct_answers (facts c) k (question r)))
                           (CHOICES (cls c)) + 1
                 \<and> set (choices r) - {answer r}
                     \<subseteq> kind_answers (facts c) k - correct_answers (facts c) k (question r)))"
    if "r \<in> set (q_and_a c2)" for r
  proof (cases "cls c = TrueOrFalse")
    case True
    with bspec[OF all that] show ?thesis by (simp add: built_record_def)
  next
    case False
    with bspec[OF all that] obtain k where nm: "kind r = NAME (cls c)"
      and ok: "choices_ok (facts c) (CHOICES (cls c)) r k"
      by (auto simp: built_record_def)
    from ok have "question r \<in> kind_questions (facts c) k
                 \<and> answer r \<in> correct_answers (facts c) k (question r)
                 \<and> count_list (choices r) (answer r) = 1
                 \<and> length (choices r)
                     = min (card (kind_answers (facts c) k
                                   - correct_answers (facts c) k (question r)))
                           (CHOICES (cls c)) + 1
                 \<and> set (choices r) - {answer r}
                     \<subseteq> kind_answers (facts c) k - correct_answers (facts c) k (question r)"
      unfolding choices_ok_def by auto
    with nm False show ?thesis by blast
  qed
  from e2 2 3 4 5 6 show ?thesis by blast
qed

theorem C1_choices_of_matching_and_multiple_choice_witness:
  "build \<lparr>cls = MultipleChoice,
          facts = [\<lparr>fkind = Some ''colors'', questions = [''Color of sky''],
                    answers = [''Blue''], q_to_a = [], a_to_q = []\<rparr>,
                   \<lparr>fkind = Some ''colors'', questions = [''Color of grass''],
                    answers = [''Green''], q_to_a = [], a_to_q = []\<rparr>],
          q_and_a = []\<rparr> [0, 0, 1, 0]
   = (None,
      \<lparr>cls = MultipleChoice,
        facts = [\<lparr>fkind = Some ''colors'', questions = [''Color of sky''],
                  answers = [''Blue''], q_to_a = [(''Color of sky'', [''Blue''])],
                  a_to_q = [(''Blue'', [''Color of sky''])]\<rparr>,
                 \<lparr>fkind = Some ''colors'', questions = [''Color of grass''],
                  answers = [''Green''], q_to_a = [(''Color of grass'', [''Green''])],
                  a_to_q = [(''Green'', [''Color of grass''])]\<rparr>],
        q_and_a = [\<lparr>kind = ''Multiple Choice'', question = ''Color of sky'',
                    choices = [''Blue'', ''Green''], answer = ''Blue''\<rparr>,
                   \<lparr>kind = ''Multiple Choice'', question = ''Color of grass'',
                    choices = [''Blue'', ''Green''], answer = ''Green''\<rparr>]\<rparr>,
      [])"
proof -
  let ?n = "Node testbank_Category (Some ''multiple_choice'') [] [
              Node testbank_Fact (Some ''colors'') [] [
                Node testbank_Question None ''Color of sky'' [],
                Node testbank_Answer None ''Blue'' []],
              Node testbank_Fact (Some ''colors'') [] [
                Node testbank_Question None ''Color of grass'' [],
                Node testbank_Answer None ''Green'' []]]"
  let ?c = "\<lparr>cls = MultipleChoice,
          facts = [\<lparr>fkind = Some ''colors'', questions = [''Color of sky''],
                    answers = [''Blue''], q_to_a = [], a_to_q = []\<rparr>,
                   \<lparr>fkind = Some ''colors'', questions = [''Color of grass''],
                    answers = [''Green''], q_to_a = [], a_to_q = []\<rparr>],
          q_and_a = []\<rparr>"
  let ?g = "[0, 0, 1, 0] :: nat list"
  have made: "get_category ?n = Inr ?c"
    by (simp add: build_eval)
  have kind: "cls ?c = Matching \<or> cls ?c = MultipleChoice"
    by simp
  have run: "build ?c ?g = (fst (build ?c ?g), fst (snd (build ?c ?g)), snd (snd (build ?c ?g)))"
    by simp
  from C1_choices_of_matching_and_multiple_choice [OF made kind run]
  have ok: "fst (build ?c ?g) = None" by (rule conjunct1)
  have rest: "snd (build ?c ?g)
   = (\<lparr>cls = MultipleChoice,
        facts = [\<lparr>fkind = Some ''colors'', questions = [''Color of sky''],
                  answers = [''Blue''], q_to_a = [(''Color of sky'', [''Blue''])],
                  a_to_q = [(''Blue'', [''Color of sky''])]\<rparr>,
                 \<lparr>fkind = Some ''colors'', questions = [''Color of grass''],
                  answers = [''Green''], q_to_a = [(''Color of grass'', [''Green''])],
                  a_to_q = [(''Green'', [''Color of grass''])]\<rparr>],
        q_and_a = [\<lparr>kind = ''Multiple Choice'', question = ''Color of sky'',
                    choices = [''Blue'', ''Green''], answer = ''Blue''\<rparr>,
                   \<lparr>kind = ''Multiple Choice'', question = ''Color of grass'',
                    choices = [''Blue'', ''Green''], answer = ''Green''\<rparr>]\<rparr>,
      [])"
    by (simp add: build_eval)
  from ok rest show ?thesis
    by (cases "build ?c ?g") simp
qed

theorem C9_second_build_appends_witness:
  "fst (build \<lparr>cls = MultipleChoice,
        facts = [\<lparr>fkind = Some ''colors'', questions = [''Color of sky''],
                  answers = [''Blue''], q_to_a = [(''Color of sky'', [''Blue''])],
                  a_to_q = [(''Blue'', [''Color of sky''])]\<rparr>,
                 \<lparr>fkind = Some ''colors'', questions = [''Color of grass''],
                  answers = [''Green''], q_to_a = [(''Color of grass'', [''Green''])],
                  a_to_q = [(''Green'', [''Color of grass''])]\<rparr>],
        q_and_a = [\<lparr>kind = ''Multiple Choice'', question = ''Color of sky'',
                    choices = [''Blue'', ''Green''], answer = ''Blue''\<rparr>,
                   \<lparr>kind = ''Multiple Choice'', question = ''Color of grass'',
                    choices = [''Blue'', ''Green''], answer = ''Green''\<rparr>]\<rparr> []) = None
   \<and> map question (q_and_a (fst (snd (build \<lparr>cls = MultipleChoice,
        facts = [\<lparr>fkind = Some ''colors'', questions = [''Color of sky''],
                  answers = [''Blue''], q_to_a = [(''Color of sky'', [''Blue''])],
                  a_to_q = [(''Blue'', [''Color of sky''])]\<rparr>,
                 \<lparr>fkind = Some ''colors'', questions = [''Color of grass''],
                  answers = [''Green''], q_to_a = [(''Color of grass'', [''Green''])],
                  a_to_q = [(''Green'', [''Color of grass''])]\<rparr>],
        q_and_a = [\<lparr>kind = ''Multiple Choice'', question = ''Color of sky'',
                    choices = [''Blue'', ''Green''], answer = ''Blue''\<rparr>,
                   \<lparr>kind = ''Multiple Choice'', question = ''Color of grass'',
                    choices = [''Blue'', ''Green''], answer = ''Green''\<rparr>]\<rparr> []))))
     = [''Color of sky'', ''Color of grass'', ''Color of sky'', ''Color of grass'']
   \<and> count_list (map question (q_and_a (fst (snd (build \<lparr>cls = MultipleChoice,
        facts = [\<lparr>fkind = Some ''colors'', questions = [''Color of sky''],
                  answers = [''Blue''], q_to_a = [(''Color of sky'', [''Blue''])],
                  a_to_q = [(''Blue'', [''Color of sky''])]\<rparr>,
                 \<lparr>fkind = Some ''colors'', questions = [''Color of grass''],
                  answers = [''Green''], q_to_a = [(''Color of grass'', [''Green''])],
                  a_to_q = [(''Green'', [''Color of grass''])]\<rparr>],
        q_and_a = [\<lparr>kind = ''Multiple Choice'', question = ''Color of sky'',
                    choices = [''Blue'', ''Green''], answer = ''Blue''\<rparr>,
                   \<lparr>kind = ''Multiple Choice'', question = ''Color of grass'',
                    choices = [''Blue'', ''Green''], answer = ''Green''\<rparr>]\<rparr> []))))) ''Color of sky'' = 2"
proof -
  let ?n = "Node testbank_Category (Some ''multiple_choice'') [] [
              Node testbank_Fact (Some ''colors'') [] [
                Node testbank_Question None ''Color of sky'' [],
                Node testbank_Answer None ''Blue'' []],
              Node testbank_Fact (Some ''colors'') [] [
                Node testbank_Question None ''Color of grass'' [],
                Node testbank_Answer None ''Green'' []]]"
  let ?c = "\<lparr>cls = MultipleChoice,
          facts = [\<lparr>fkind = Some ''colors'', questions = [''Color of sky''],
                    answers = [''Blue''], q_to_a = [], a_to_q = []\<rparr>,
                   \<lparr>fkind = Some ''colors'', questions = [''Color of grass''],
                    answers = [''Green''], q_to_a = [], a_to_q = []\<rparr>],
          q_and_a = []\<rparr>"
  let ?c1 = "\<lparr>cls = MultipleChoice,
        facts = [\<lparr>fkind = Some ''colors'', questions = [''Color of sky''],
                  answers = [''Blue''], q_to_a = [(''Color of sky'', [''Blue''])],
                  a_to_q = [(''Blue'', [''Color of sky''])]\<rparr>,
                 \<lparr>fkind = Some ''colors'', questions = [''Color of grass''],
                  answers = [''Green''], q_to_a = [(''Color of grass'', [''Green''])],
                  a_to_q = [(''Green'', [''Color of grass''])]\<rparr>],
        q_and_a = [\<lparr>kind = ''Multiple Choice'', question = ''Color of sky'',
                    choices = [''Blue'', ''Green''], answer = ''Blue''\<rparr>,
                   \<lparr>kind = ''Multiple Choice'', question = ''Color of grass'',
                    choices = [''Blue'', ''Green''], answer = ''Green''\<rparr>]\<rparr>"
  have made: "get_category ?n = Inr ?c"
    by (simp add: build_eval)
  have first: "build ?c [0, 0, 1, 0] = (None, ?c1, [])"
    by (simp add: build_eval)
  have second: "build ?c1 []
     = (fst (build ?c1 []), fst (snd (build ?c1 [])), snd (snd (build ?c1 [])))"
    by simp
  note t = C9_second_build_appends [OF made first second]
  from t have ok: "fst (build ?c1 []) = None" by (rule conjunct1)
  from t have "\<forall>q. count_list (map question (q_and_a ?c1)) q = records_per_build ?c q
      \<and> count_list (map question (q_and_a (fst (snd (build ?c1 []))))) q
          = 2 * records_per_build ?c q"
    by (elim conjE)
  then have "count_list (map question (q_and_a (fst (snd (build ?c1 []))))) ''Color of sky''
      = 2 * records_per_build ?c ''Color of sky''"
    by blast
  also have "records_per_build ?c ''Color of sky'' = 1"
    by (simp add: records_per_build_def)
  finally have two: "count_list (map question (q_and_a (fst (snd (build ?c1 [])))))
      ''Color of sky'' = 2" by simp
  have out: "map question (q_and_a (fst (snd (build ?c1 []))))
     = [''Color of sky'', ''Color of grass'', ''Color of sky'', ''Color of grass'']"
    by (simp add: build_eval)
  from ok out two show ?thesis by simp
qed

section \<open>The session: roll-up of Reports\<close>

lemma rolls_up_refl: "rolls_up p s s"
  by (simp add: rolls_up_def)

lemma rolls_up_trans:
  "rolls_up p s1 s2 \<Longrightarrow> rolls_up p s2 s3 \<Longrightarrow> rolls_up p s1 s3"
  unfolding rolls_up_def by (auto; force)

lemma Question_answer_ok:
  assumes "Question_answer h q x = (None, h', q')"
  shows "tally h' (q_report q) = tally h (q_report q) + 1"
    and "\<forall>r. r \<noteq> q_report q \<longrightarrow> h' r = h r"
    and "finalized (h' (q_report q)) = finalized (h (q_report q))"
    and "parent (h' (q_report q)) = parent (h (q_report q))"
  using assms
  by (auto simp: Question_answer_def right_answer_def wrong_answer_def review_def tally_def
      split: if_splits sum.splits prod.splits option.splits)

lemma yield_questions_ok:
  "yield_questions drv rep rs s = Inr s' \<Longrightarrow>
     tally (reports s') rep = tally (reports s) rep + int (length rs)
   \<and> (\<forall>r. r \<noteq> rep \<longrightarrow> reports s' r = reports s r)
   \<and> finalized (reports s' rep) = finalized (reports s rep)
   \<and> parent (reports s' rep) = parent (reports s rep)
   \<and> allocated s' = allocated s
   \<and> questions_yielded s' = questions_yielded s + length rs"
proof (induction rs arbitrary: s)
  case Nil
  then show ?case by simp
next
  case (Cons rcd rest)
  let ?q = "Question_init rep rcd"
  let ?s1 = "yield (Question_event ?q) s"
  obtain e h q1 where a: "Question_answer (reports ?s1) ?q (drv (asked ?s1) ?q) = (e, h, q1)"
    by (cases "Question_answer (reports ?s1) ?q (drv (asked ?s1) ?q)")
  with Cons.prems have e: "e = None"
    by (cases e) (simp_all add: Let_def)
  let ?s2 = "?s1\<lparr>reports := h, asked := Suc (asked ?s1)\<rparr>"
  from Cons.prems a e have run: "yield_questions drv rep rest ?s2 = Inr s'"
    by (simp add: Let_def)
  note ih = Cons.IH[OF run]
  have rep: "q_report ?q = rep" by (simp add: Question_init_def)
  note st = Question_answer_ok[OF a[unfolded e], unfolded rep]
  have r1: "reports ?s1 = reports s" "allocated ?s2 = allocated s"
    "questions_yielded ?s2 = Suc (questions_yielded s)" "reports ?s2 = h"
    by (simp_all add: yield_def questions_yielded_def)
  show ?case
    using ih st unfolding r1 by simp
qed

lemma finalize_into_parent:
  assumes "finalize h r = (None, h')" and "parent (h r) = Some p" and "p \<noteq> r"
  shows "tally h' p = tally h p + tally h r"
    and "\<forall>x. x \<noteq> r \<and> x \<noteq> p \<longrightarrow> h' x = h x"
    and "finalized (h' p) = finalized (h p)" and "parent (h' p) = parent (h p)"
  using assms
  by (auto simp: finalize_def tally_def Let_def split: if_splits)

lemma finalize_top:
  assumes "finalize h r = (None, h')" and "parent (h r) = None"
  shows "h' = h(r := (h r)\<lparr>finalized := True\<rparr>)"
  using assms by (auto simp: finalize_def Let_def split: if_splits)

lemma build_categories_pool:
  "build_categories cs pool g = Inr (cs', pool', g') \<Longrightarrow> length cs' = length cs"
proof (induction cs arbitrary: pool g cs')
  case Nil
  then show ?case by simp
next
  case (Cons c cs)
  then show ?case
    by (auto split: prod.splits option.splits sum.splits)
qed

lemma questions_yielded_simps:
  "questions_yielded (yield (Enter a b) s) = questions_yielded s"
  "questions_yielded (yield (Exit a b) s) = questions_yielded s"
  "questions_yielded (yield (Report_event r) s) = questions_yielded s"
  "questions_yielded (s\<lparr>reports := h\<rparr>) = questions_yielded s"
  "questions_yielded (s\<lparr>rand := g\<rparr>) = questions_yielded s"
  "questions_yielded (snd (new_Report lvl par s)) = questions_yielded s"
  by (simp_all add: questions_yielded_def yield_def new_Report_def)

lemma yield_fields:
  "reports (yield ev s) = reports s" "allocated (yield ev s) = allocated s"
  "rand (yield ev s) = rand s"
  by (simp_all add: yield_def)

lemma new_Report_fields:
  "fst (new_Report lvl par s) = allocated s"
  "reports (snd (new_Report lvl par s)) = (reports s)(allocated s := Report_init lvl par)"
  "allocated (snd (new_Report lvl par s)) = Suc (allocated s)"
  by (simp_all add: new_Report_def)

text \<open>
  A division with a fresh Report \<open>r\<close> under parent \<open>p\<close>: whatever happens in between
  rolls up into \<open>r\<close>, and finalizing \<open>r\<close> rolls it up into \<open>p\<close>.
\<close>

lemma division_rolls_up:
  assumes p: "p < allocated s"
    and s2: "s2 = snd (new_Report lvl (Some p) (yield ev s))"
    and body: "rolls_up (allocated s) s2 s3"
    and fin: "finalize (reports (yield ev' s3)) (allocated s) = (None, h)"
    and s': "s' = yield (Report_event (allocated s)) ((yield ev' s3)\<lparr>reports := h\<rparr>)"
    and ev: "\<not> is_Question_event ev" "\<not> is_Question_event ev'"
  shows "rolls_up p s s'"
proof -
  let ?r = "allocated s"
  from p have ne: "p \<noteq> ?r" by simp
  have a2: "allocated s2 = Suc ?r" and r2: "reports s2 = (reports s)(?r := Report_init lvl (Some p))"
    and q2: "questions_yielded s2 = questions_yielded s"
    using ev(1) by (simp_all add: s2 new_Report_def yield_def questions_yielded_def)
  from body have a3: "allocated s2 \<le> allocated s3"
    and same3: "\<forall>x < allocated s2. x \<noteq> ?r \<longrightarrow> reports s3 x = reports s2 x"
    and fin3: "finalized (reports s3 ?r) = finalized (reports s2 ?r)"
    and par3: "parent (reports s3 ?r) = parent (reports s2 ?r)"
    and tal3: "tally (reports s3) ?r + int (questions_yielded s2)
                = tally (reports s2) ?r + int (questions_yielded s3)"
    by (simp_all add: rolls_up_def)
  have t2: "tally (reports s2) ?r = 0"
    by (simp add: r2 tally_def Report_init_def)
  have par: "parent (reports s3 ?r) = Some p"
    using par3 by (simp add: r2 Report_init_def)
  have p3: "reports s3 p = reports s p"
    using same3 p ne by (simp add: a2 r2)
  have y: "reports (yield ev' s3) = reports s3" by (simp add: yield_def)
  note f = finalize_into_parent[OF fin[unfolded y] par ne]
  have rs': "reports s' = h" "allocated s' = allocated s3"
    by (simp_all add: s' yield_def)
  have qs': "questions_yielded s' = questions_yielded s3"
    using ev(2) by (simp add: s' yield_def questions_yielded_def)
  have 1: "allocated s \<le> allocated s'"
    using a2 a3 rs'(2) by simp
  have 2: "\<forall>x < allocated s. x \<noteq> p \<longrightarrow> reports s' x = reports s x"
  proof (intro allI impI)
    fix x assume x: "x < allocated s" "x \<noteq> p"
    then have "h x = reports s3 x" using f(2) by simp
    also have "\<dots> = reports s2 x" using same3 x by (simp add: a2)
    also have "\<dots> = reports s x" using x by (simp add: r2)
    finally show "reports s' x = reports s x" by (simp add: rs')
  qed
  have 3: "finalized (reports s' p) = finalized (reports s p)"
    "parent (reports s' p) = parent (reports s p)"
    using f(3,4) p3 by (simp_all add: rs')
  have 4: "tally (reports s') p + int (questions_yielded s)
       = tally (reports s) p + int (questions_yielded s')"
    using f(1) tal3 t2 p3 q2 qs' by (simp add: rs' tally_def)
  from 1 2 3 4 show ?thesis by (simp add: rolls_up_def)
qed

lemma yield_questions_rolls_up:
  assumes "yield_questions drv r rs s = Inr s'"
  shows "rolls_up r s s'"
  using yield_questions_ok[OF assms] by (simp add: rolls_up_def)

lemma run_section_rolls_up:
  assumes "run_section drv p sec s = Inr (sec', s')" and "p < allocated s"
  shows "rolls_up p s s'"
proof -
  let ?ev = "Enter ''Section'' (section_name sec)"
  let ?ev' = "Exit ''Section'' (section_name sec)"
  define s2 where "s2 = snd (new_Report ''Section'' (Some p) (yield ?ev s))"
  have nr: "new_Report ''Section'' (Some p) (yield ?ev s) = (allocated s, s2)"
    by (simp add: s2_def new_Report_def yield_def)
  from assms(1) obtain cats pool g1
    where bc: "build_categories (categories sec) [] (rand s2) = Inr (cats, pool, g1)"
    using nr unfolding run_section_def Let_def
    by (cases "build_categories (categories sec) [] (rand s2)") auto
  obtain shuffled g2 where sh: "random_shuffle pool g1 = (shuffled, g2)"
    by (cases "random_shuffle pool g1")
  from assms(1) obtain s3
    where yq: "yield_questions drv (allocated s) shuffled (s2\<lparr>rand := g2\<rparr>) = Inr s3"
    using bc sh nr unfolding run_section_def Let_def
    by (cases "yield_questions drv (allocated s) shuffled (s2\<lparr>rand := g2\<rparr>)") auto
  from assms(1) obtain h
    where fin: "finalize (reports (yield ?ev' s3)) (allocated s) = (None, h)"
      and s': "s' = yield (Report_event (allocated s)) ((yield ?ev' s3)\<lparr>reports := h\<rparr>)"
    using yq bc sh nr unfolding run_section_def Let_def
    by (cases "finalize (reports (yield ?ev' s3)) (allocated s)")
      (auto split: option.splits)
  have "rolls_up (allocated s) (s2\<lparr>rand := g2\<rparr>) s3"
    using yq by (rule yield_questions_rolls_up)
  then have body: "rolls_up (allocated s) s2 s3"
    by (simp add: rolls_up_def questions_yielded_def)
  show ?thesis
    by (rule division_rolls_up[OF assms(2) s2_def body fin s']) simp_all
qed

lemma rolls_up_allocated: "rolls_up p s s' \<Longrightarrow> allocated s \<le> allocated s'"
  by (simp add: rolls_up_def)

lemma run_sections_rolls_up:
  "run_sections drv p secs s = Inr (secs', s') \<Longrightarrow> p < allocated s \<Longrightarrow> rolls_up p s s'"
proof (induction secs arbitrary: s secs')
  case Nil
  then show ?case by (simp add: rolls_up_refl)
next
  case (Cons sec rest)
  from Cons.prems(1) obtain sec1 s1 where 1: "run_section drv p sec s = Inr (sec1, s1)"
    by (cases "run_section drv p sec s") auto
  with Cons.prems(1) obtain rest1 where 2: "run_sections drv p rest s1 = Inr (rest1, s')"
    by (cases "run_sections drv p rest s1") auto
  note a = run_section_rolls_up[OF 1 Cons.prems(2)]
  from rolls_up_allocated[OF a] Cons.prems(2) have "p < allocated s1" by simp
  from a Cons.IH[OF 2 this] show ?case by (rule rolls_up_trans)
qed

lemma run_chapter_rolls_up:
  assumes "run_chapter drv p chapter s = Inr (chapter', s')" and "p < allocated s"
  shows "rolls_up p s s'"
proof -
  let ?ev = "Enter ''Chapter'' (chapter_name chapter)"
  let ?ev' = "Exit ''Chapter'' (chapter_name chapter)"
  define s2 where "s2 = snd (new_Report ''Chapter'' (Some p) (yield ?ev s))"
  have nr: "new_Report ''Chapter'' (Some p) (yield ?ev s) = (allocated s, s2)"
    by (simp add: s2_def new_Report_def yield_def)
  from assms(1) obtain secs s3
    where rs: "run_sections drv (allocated s) (sections chapter) s2 = Inr (secs, s3)"
    using nr unfolding run_chapter_def Let_def
    by (cases "run_sections drv (allocated s) (sections chapter) s2") auto
  from assms(1) obtain h
    where fin: "finalize (reports (yield ?ev' s3)) (allocated s) = (None, h)"
      and s': "s' = yield (Report_event (allocated s)) ((yield ?ev' s3)\<lparr>reports := h\<rparr>)"
    using rs nr unfolding run_chapter_def Let_def
    by (cases "finalize (reports (yield ?ev' s3)) (allocated s)")
      (auto split: option.splits)
  have "allocated s < allocated s2" by (simp add: s2_def new_Report_def yield_def)
  from run_sections_rolls_up[OF rs this] have body: "rolls_up (allocated s) s2 s3" .
  show ?thesis
    by (rule division_rolls_up[OF assms(2) s2_def body fin s']) simp_all
qed

lemma run_chapters_rolls_up:
  "run_chapters drv p chaps s = Inr (chaps', s') \<Longrightarrow> p < allocated s \<Longrightarrow> rolls_up p s s'"
proof (induction chaps arbitrary: s chaps')
  case Nil
  then show ?case by (simp add: rolls_up_refl)
next
  case (Cons chap rest)
  from Cons.prems(1) obtain chap1 s1 where 1: "run_chapter drv p chap s = Inr (chap1, s1)"
    by (cases "run_chapter drv p chap s") auto
  with Cons.prems(1) obtain rest1 where 2: "run_chapters drv p rest s1 = Inr (rest1, s')"
    by (cases "run_chapters drv p rest s1") auto
  note a = run_chapter_rolls_up[OF 1 Cons.prems(2)]
  from rolls_up_allocated[OF a] Cons.prems(2) have "p < allocated s1" by simp
  from a Cons.IH[OF 2 this] show ?case by (rule rolls_up_trans)
qed

text \<open>
  Claim C3. When a session started on a fresh generator runs to its end, with the driver
  answering every question event once (and no call raising) before it pulls the next
  event, the last event is the unit-test Report, it has no parent, it is finalized, and
  its \<open>right + wrong\<close> (its \<open>total\<close>) is the number of question events yielded in
  the session: every answer adds one to the section Report, and each \<open>finalize\<close> adds
  the counts of a section into its chapter and of a chapter into the unit test.
\<close>

theorem C3_terminal_report_counts_questions:
  assumes "FAQ_iter drv faq (new_session g) = Inr (faq', s')"
  shows "last (events s') = Report_event 0
     \<and> Report_final (reports s') 0
     \<and> (\<exists>r w. Report_right (reports s') 0 = Inr r \<and> Report_wrong (reports s') 0 = Inr w
           \<and> r + w = int (length (filter is_Question_event (events s'))))
     \<and> Report_total (reports s') 0
         = Inr (int (length (filter is_Question_event (events s'))))"
proof -
  let ?s = "new_session g"
  let ?ev = "Enter ''UnitTest'' (unittest_name (test faq))"
  let ?ev' = "Exit ''UnitTest'' (unittest_name (test faq))"
  define s2 where "s2 = snd (new_Report ''UnitTest'' None (yield ?ev ?s))"
  have nr: "new_Report ''UnitTest'' None (yield ?ev ?s) = (0, s2)"
    by (simp add: s2_def new_Report_def yield_def new_session_def)
  from assms obtain chaps s3
    where rc: "run_chapters drv 0 (chapters (test faq)) s2 = Inr (chaps, s3)"
    using nr unfolding FAQ_iter_def Let_def
    by (cases "run_chapters drv 0 (chapters (test faq)) s2") auto
  from assms obtain h
    where fin: "finalize (reports (yield ?ev' s3)) 0 = (None, h)"
      and s': "s' = yield (Report_event 0) ((yield ?ev' s3)\<lparr>reports := h\<rparr>)"
    using rc nr unfolding FAQ_iter_def Let_def
    by (cases "finalize (reports (yield ?ev' s3)) 0") (auto split: option.splits)
  have a2: "0 < allocated s2" by (simp add: s2_def new_Report_def yield_def)
  have r2: "reports s2 0 = Report_init ''UnitTest'' None"
    by (simp add: s2_def new_Report_def yield_def new_session_def)
  have q2: "questions_yielded s2 = 0"
    by (simp add: s2_def new_Report_def yield_def new_session_def questions_yielded_def)
  from run_chapters_rolls_up[OF rc a2]
  have par: "parent (reports s3 0) = None"
    and tal: "tally (reports s3) 0 = int (questions_yielded s3)"
    by (simp_all add: rolls_up_def r2 q2 tally_def Report_init_def)
  have y: "reports (yield ?ev' s3) = reports s3" by (simp add: yield_def)
  from finalize_top[OF fin[unfolded y] par]
  have h: "h = (reports s3)(0 := (reports s3 0)\<lparr>finalized := True\<rparr>)" .
  have n: "length (filter is_Question_event (events s')) = questions_yielded s3"
    by (simp add: s' yield_def questions_yielded_def)
  have rs: "reports s' = h" by (simp add: s' yield_def)
  have 1: "last (events s') = Report_event 0" by (simp add: s' yield_def)
  have 2: "Report_final (reports s') 0"
    using par by (simp add: rs h Report_final_def)
  have 3: "Report_right (reports s') 0 = Inr (right (reports s3 0))"
    "Report_wrong (reports s') 0 = Inr (wrong (reports s3 0))"
    "Report_total (reports s') 0 = Inr (tally (reports s3) 0)"
    by (simp_all add: rs h Report_right_def Report_wrong_def Report_total_def tally_def)
  from 1 2 3 tal n show ?thesis
    by (simp add: tally_def)
qed

lemmas session_eval =
  FAQ_iter_def run_chapter_def run_section_def new_Report_def yield_def new_session_def
  Question_answer_def Question_init_def tuple_getitem_def right_answer_def wrong_answer_def
  review_def finalize_def Report_init_def Report_total_def

theorem C3_terminal_report_counts_questions_witness:
  "FAQ_init (Node testbank_TestBank (Some ''Bank'') [] [
      Node testbank_Chapter (Some ''One'') [] [
        Node testbank_Section (Some ''A'') [] [
          Node testbank_Category (Some ''true_or_false'') [] [
            Node testbank_Fact None [] [
              Node testbank_Question None ''Sky is blue'' [],
              Node testbank_Answer None ''True'' []]]]]])
     = Inr \<lparr>test = \<lparr>unittest_name = Some ''Bank'', chapters = [
          \<lparr>chapter_name = Some ''One'', sections = [
            \<lparr>section_name = Some ''A'', categories = [
              \<lparr>cls = TrueOrFalse,
               facts = [\<lparr>fkind = None, questions = [''Sky is blue''], answers = [''True''],
                         q_to_a = [], a_to_q = []\<rparr>],
               q_and_a = []\<rparr>]\<rparr>]\<rparr>]\<rparr>\<rparr>
   \<and> Report_total (reports (snd (projr (FAQ_iter (\<lambda>n q. An_int 0)
       \<lparr>test = \<lparr>unittest_name = Some ''Bank'', chapters = [
          \<lparr>chapter_name = Some ''One'', sections = [
            \<lparr>section_name = Some ''A'', categories = [
              \<lparr>cls = TrueOrFalse,
               facts = [\<lparr>fkind = None, questions = [''Sky is blue''], answers = [''True''],
                         q_to_a = [], a_to_q = []\<rparr>],
               q_and_a = []\<rparr>]\<rparr>]\<rparr>]\<rparr>\<rparr>
       (new_session [1]))))) 0 = Inr 1"
proof -
  let ?root = "Node testbank_TestBank (Some ''Bank'') [] [
      Node testbank_Chapter (Some ''One'') [] [
        Node testbank_Section (Some ''A'') [] [
          Node testbank_Category (Some ''true_or_false'') [] [
            Node testbank_Fact None [] [
              Node testbank_Question None ''Sky is blue'' [],
              Node testbank_Answer None ''True'' []]]]]]"
  let ?faq = "\<lparr>test = \<lparr>unittest_name = Some ''Bank'', chapters = [
          \<lparr>chapter_name = Some ''One'', sections = [
            \<lparr>section_name = Some ''A'', categories = [
              \<lparr>cls = TrueOrFalse,
               facts = [\<lparr>fkind = None, questions = [''Sky is blue''], answers = [''True''],
                         q_to_a = [], a_to_q = []\<rparr>],
               q_and_a = []\<rparr>]\<rparr>]\<rparr>]\<rparr>\<rparr>"
  let ?run = "FAQ_iter (\<lambda>n q. An_int 0) ?faq (new_session [1])"
  have valid: "FAQ_init ?root = Inr ?faq"
    by (simp add: FAQ_init_def UnitTest_init_def Chapter_init_def Section_init_def build_eval)
  have evs: "\<not> isl ?run
     \<and> map is_Question_event (events (snd (projr ?run)))
         = [False, False, False, True, False, False, False, False, False, False]"
    by (simp add: session_eval build_eval)
  then have complete: "?run = Inr (fst (projr ?run), snd (projr ?run))"
    by (cases ?run) simp_all
  have "length (filter is_Question_event (events (snd (projr ?run))))
          = length (filter id (map is_Question_event (events (snd (projr ?run)))))"
    by (simp add: filter_map o_def)
  also have "\<dots> = 1"
    using evs by simp
  finally have one: "length (filter is_Question_event (events (snd (projr ?run)))) = 1" .
  from C3_terminal_report_counts_questions [OF complete]
  have "Report_total (reports (snd (projr ?run))) 0
          = Inr (int (length (filter is_Question_event (events (snd (projr ?run))))))"
    by simp
  then have "Report_total (reports (snd (projr ?run))) 0 = Inr 1"
    unfolding one by simp
  with valid show ?thesis by simp
qed

end
